theory Spec2Isabelle
  imports Main "HOL-Library.Char_ord" "HOL-Library.List_Lexorder"
begin

section \<open>Errors\<close>

text \<open>
  The error codes of \<^verbatim>\<open>util/error.ts\<close> that the modelled functions raise. A
  \<^verbatim>\<open>YorkieError\<close> is modelled by its code (the messages interpolate debugging strings).
  \<^verbatim>\<open>TypeError\<close> is what JavaScript raises when a property of \<^verbatim>\<open>undefined\<close> is read
  (a failed non-null assertion); \<^verbatim>\<open>Thrown\<close> is an exception raised by user code.
\<close>

datatype Code =
    ErrInvalidArgument
  | ErrRefused
  | ErrDocumentRemoved
  | ErrDocumentSchemaValidationFailed
  | ErrDocumentSizeExceedsLimit

datatype error = YorkieError Code | TypeError | Thrown string

section \<open>Time layer\<close>

type_synonym ActorID = string

record TimeTicket =
  lamport :: int
  delimiter :: nat
  actorID :: ActorID

text \<open>
  Modelled from the spec: \<^verbatim>\<open>TimeTicket.compare\<close> of \<^verbatim>\<open>time/ticket.ts\<close> (not among the
  sources). The order is lamport ascending, then actor ascending, then delimiter
  ascending; the result is \<open>-1\<close>, \<open>0\<close> or \<open>1\<close>.
\<close>

definition ticket_compare :: "TimeTicket \<Rightarrow> TimeTicket \<Rightarrow> int" where
  "ticket_compare a b =
     (if lamport a > lamport b then 1
      else if lamport a < lamport b then -1
      else if actorID a > actorID b then 1
      else if actorID a < actorID b then -1
      else if delimiter a > delimiter b then 1
      else if delimiter a < delimiter b then -1
      else 0)"

text \<open>Modelled from the spec: \<^verbatim>\<open>after(b)\<close> is \<^verbatim>\<open>compare > 0\<close>.\<close>

definition after :: "TimeTicket \<Rightarrow> TimeTicket \<Rightarrow> bool" where
  "after a b = (ticket_compare a b > 0)"

text \<open>
  Modelled from the spec: the constants of \<^verbatim>\<open>time/ticket.ts\<close> and \<^verbatim>\<open>time/actor_id.ts\<close>.
  \<^verbatim>\<open>InitialTimeTicket\<close> is the ticket of the head node, \<^verbatim>\<open>MaxLamport\<close> is the lamport
  a local edit substitutes for the editor's knowledge (the largest signed 64-bit value).
\<close>

definition InitialActorID :: ActorID where
  "InitialActorID = ''000000000000000000000000''"

definition InitialTimeTicket :: TimeTicket where
  "InitialTimeTicket = \<lparr>lamport = 0, delimiter = 0, actorID = InitialActorID\<rparr>"

definition MaxLamport :: int where
  "MaxLamport = 9223372036854775807"

text \<open>A \<^verbatim>\<open>VersionVector\<close> is a \<^verbatim>\<open>Map<ActorID, bigint>\<close>; \<^verbatim>\<open>get\<close> is the map lookup.\<close>

type_synonym VersionVector = "ActorID \<rightharpoonup> int"

section \<open>Data sizes\<close>

record DataSize =
  data :: int
  meta :: int

text \<open>
  Modelled from the spec: \<^verbatim>\<open>addDataSizes\<close> and \<^verbatim>\<open>subDataSize\<close> of \<^verbatim>\<open>util/resource.ts\<close>
  add and subtract \<open>{data, meta}\<close> pairs pointwise.
\<close>

definition zeroDataSize :: DataSize where
  "zeroDataSize = \<lparr>data = 0, meta = 0\<rparr>"

definition addDataSize :: "DataSize \<Rightarrow> DataSize \<Rightarrow> DataSize" where
  "addDataSize a b = \<lparr>data = data a + data b, meta = meta a + meta b\<rparr>"

definition subDataSize :: "DataSize \<Rightarrow> DataSize \<Rightarrow> DataSize" where
  "subDataSize a b = \<lparr>data = data a - data b, meta = meta a - meta b\<rparr>"

section \<open>Replicated hash table of attributes\<close>

record RHTNode =
  rkey :: string
  rvalue :: string
  updatedAt :: TimeTicket

text \<open>An \<^verbatim>\<open>RHT\<close> is an insertion-ordered map from key to node.\<close>

type_synonym RHT = "RHTNode list"

text \<open>
  The byte sizes that \<^verbatim>\<open>getDataSize\<close> adds up come from sources that are not available
  (\<^verbatim>\<open>TimeTicketSize\<close> of \<^verbatim>\<open>time/ticket.ts\<close>, \<^verbatim>\<open>RHTNode.getDataSize\<close> of
  \<^verbatim>\<open>crdt/rht.ts\<close>); they are parameters of the model.
\<close>

record Sizes =
  TimeTicketSize :: int
  rhtNodeDataSize :: "RHTNode \<Rightarrow> DataSize"

definition rht_get :: "string \<Rightarrow> RHT \<Rightarrow> RHTNode option" where
  "rht_get k h = List.find (\<lambda>n. rkey n = k) h"

text \<open>
  Modelled from the spec: \<^verbatim>\<open>RHT.set(key, value, ticket)\<close> of \<^verbatim>\<open>crdt/rht.ts\<close>. A new key
  is appended; an existing entry is replaced iff \<^verbatim>\<open>ticket.after(existing.updatedAt)\<close>, and
  the replaced node is returned as the first component (it becomes a GC child). The second
  component is the node stored under the key afterwards.
\<close>

definition rht_set ::
  "string \<Rightarrow> string \<Rightarrow> TimeTicket \<Rightarrow> RHT \<Rightarrow> (RHTNode option \<times> RHTNode option) \<times> RHT" where
  "rht_set k v t h =
     (let node = \<lparr>rkey = k, rvalue = v, updatedAt = t\<rparr> in
      case rht_get k h of
        None \<Rightarrow> ((None, Some node), h @ [node])
      | Some prev \<Rightarrow>
          if after t (updatedAt prev)
          then ((Some prev, Some node), map (\<lambda>n. if rkey n = k then node else n) h)
          else ((None, Some prev), h))"

section \<open>Text values\<close>

text \<open>
  An \<^verbatim>\<open>RHT\<close> is a mutable object: \<^verbatim>\<open>setAttr\<close> changes it in place, and every value
  that holds a reference to it sees the change. The \<^verbatim>\<open>RHT\<close> objects therefore live in a
  heap (a list of cells, a reference is an index, allocation appends), and a
  \<^verbatim>\<open>CRDTTextValue\<close> holds the reference to its \<^verbatim>\<open>attributes\<close> and its \<^verbatim>\<open>content\<close>, which
  is never reassigned.
\<close>

type_synonym Heap = "RHT list"

definition alloc :: "RHT \<Rightarrow> Heap \<Rightarrow> nat \<times> Heap" where
  "alloc r h = (length h, h @ [r])"

record CRDTTextValue =
  attributes :: nat
  content :: string

definition CRDTTextValue_create :: "string \<Rightarrow> Heap \<Rightarrow> CRDTTextValue \<times> Heap" where
  "CRDTTextValue_create c h =
     (case alloc [] h of (r, h') \<Rightarrow> (\<lparr>attributes = r, content = c\<rparr>, h'))"

text \<open>
  \<^verbatim>\<open>String.prototype.substring(start, end)\<close>: both arguments are clamped to the length of
  the string and swapped when \<open>start > end\<close>.
\<close>

definition js_substring :: "int \<Rightarrow> int \<Rightarrow> string \<Rightarrow> string" where
  "js_substring a b s =
     (let n = int (length s);
          a' = max 0 (min a n);
          b' = max 0 (min b n);
          lo = min a' b';
          hi = max a' b'
      in take (nat (hi - lo)) (drop (nat lo) s))"

text \<open>
  \<^verbatim>\<open>substring\<close> builds a new value whose attributes are a copy
  (\<^verbatim>\<open>this.attributes.deepcopy()\<close>) in a new object.
\<close>

definition value_substring :: "int \<Rightarrow> int \<Rightarrow> CRDTTextValue \<Rightarrow> Heap \<Rightarrow> CRDTTextValue \<times> Heap" where
  "value_substring a b v h =
     (case alloc (h ! attributes v) h of
        (r, h') \<Rightarrow> (\<lparr>attributes = r, content = js_substring a b (content v)\<rparr>, h'))"

definition setAttr ::
  "string \<Rightarrow> string \<Rightarrow> TimeTicket \<Rightarrow> CRDTTextValue \<Rightarrow> Heap
     \<Rightarrow> (RHTNode option \<times> RHTNode option) \<times> Heap" where
  "setAttr k c t v h =
     (case rht_set k c t (h ! attributes v) of (r, rht') \<Rightarrow> (r, h[attributes v := rht']))"

definition getAttrs :: "CRDTTextValue \<Rightarrow> Heap \<Rightarrow> RHT" where
  "getAttrs v h = h ! attributes v"

definition value_getDataSize :: "Sizes \<Rightarrow> CRDTTextValue \<Rightarrow> Heap \<Rightarrow> DataSize" where
  "value_getDataSize sz v h =
     foldl (\<lambda>d n. \<lparr>data = data d + data (rhtNodeDataSize sz n),
                   meta = meta d + meta (rhtNodeDataSize sz n)\<rparr>)
       \<lparr>data = int (length (content v)) * 2, meta = 0\<rparr> (h ! attributes v)"

section \<open>Node identifiers and positions\<close>

record RGATreeSplitNodeID =
  createdAt :: TimeTicket
  offset :: nat

definition equalsID :: "RGATreeSplitNodeID \<Rightarrow> RGATreeSplitNodeID \<Rightarrow> bool" where
  "equalsID a b = (ticket_compare (createdAt a) (createdAt b) = 0 \<and> offset a = offset b)"

definition hasSameCreatedAt :: "RGATreeSplitNodeID \<Rightarrow> RGATreeSplitNodeID \<Rightarrow> bool" where
  "hasSameCreatedAt a b = (ticket_compare (createdAt a) (createdAt b) = 0)"

definition id_split :: "RGATreeSplitNodeID \<Rightarrow> int \<Rightarrow> RGATreeSplitNodeID" where
  "id_split i off = \<lparr>createdAt = createdAt i, offset = nat (int (offset i) + off)\<rparr>"

definition InitialRGATreeSplitNodeID :: RGATreeSplitNodeID where
  "InitialRGATreeSplitNodeID = \<lparr>createdAt = InitialTimeTicket, offset = 0\<rparr>"

record RGATreeSplitPos =
  pos_id :: RGATreeSplitNodeID
  relativeOffset :: nat

definition getAbsoluteID :: "RGATreeSplitPos \<Rightarrow> RGATreeSplitNodeID" where
  "getAbsoluteID p =
     \<lparr>createdAt = createdAt (pos_id p), offset = offset (pos_id p) + relativeOffset p\<rparr>"

type_synonym RGATreeSplitPosRange = "RGATreeSplitPos \<times> RGATreeSplitPos"

text \<open>The comparator of the tree keyed by identifier (\<^verbatim>\<open>createComparator\<close>).\<close>

definition compareID :: "RGATreeSplitNodeID \<Rightarrow> RGATreeSplitNodeID \<Rightarrow> int" where
  "compareID p1 p2 =
     (let c = ticket_compare (createdAt p1) (createdAt p2) in
      if c \<noteq> 0 then c
      else if offset p1 > offset p2 then 1
      else if offset p1 < offset p2 then -1
      else 0)"

section \<open>Nodes\<close>

text \<open>
  A node object is referred to by its identifier, which never changes after construction:
  the links \<^verbatim>\<open>insPrev\<close> and \<^verbatim>\<open>insNext\<close> hold the identifier of the node they point to.
  The value of the head node is \<^verbatim>\<open>undefined\<close>.
\<close>

record RGATreeSplitNode =
  nid :: RGATreeSplitNodeID
  val :: "CRDTTextValue option"
  removedAt :: "TimeTicket option"
  insPrev :: "RGATreeSplitNodeID option"
  insNext :: "RGATreeSplitNodeID option"

definition node_create :: "RGATreeSplitNodeID \<Rightarrow> CRDTTextValue option \<Rightarrow> RGATreeSplitNode" where
  "node_create i v = \<lparr>nid = i, val = v, removedAt = None, insPrev = None, insNext = None\<rparr>"

definition getCreatedAt :: "RGATreeSplitNode \<Rightarrow> TimeTicket" where
  "getCreatedAt n = createdAt (nid n)"

definition getContentLength :: "RGATreeSplitNode \<Rightarrow> nat" where
  "getContentLength n = (case val n of None \<Rightarrow> 0 | Some v \<Rightarrow> length (content v))"

definition isRemoved :: "RGATreeSplitNode \<Rightarrow> bool" where
  "isRemoved n = (removedAt n \<noteq> None)"

definition getLength :: "RGATreeSplitNode \<Rightarrow> nat" where
  "getLength n = (if removedAt n \<noteq> None then 0 else getContentLength n)"

definition canDelete :: "TimeTicket \<Rightarrow> int \<Rightarrow> RGATreeSplitNode \<Rightarrow> bool" where
  "canDelete editedAt clientLamportAtChange n =
     (let justRemoved = (removedAt n = None);
          nodeExisted = (lamport (getCreatedAt n) \<le> clientLamportAtChange)
      in if nodeExisted \<and>
            (case removedAt n of None \<Rightarrow> True | Some r \<Rightarrow> after editedAt r)
         then justRemoved
         else False)"

definition canStyle :: "TimeTicket \<Rightarrow> int \<Rightarrow> RGATreeSplitNode \<Rightarrow> bool" where
  "canStyle editedAt clientLamportAtChange n =
     (let nodeExisted = (lamport (getCreatedAt n) \<le> clientLamportAtChange)
      in nodeExisted \<and> (case removedAt n of None \<Rightarrow> True | Some r \<Rightarrow> after editedAt r))"

definition node_remove :: "TimeTicket option \<Rightarrow> RGATreeSplitNode \<Rightarrow> RGATreeSplitNode" where
  "node_remove editedAt n = n\<lparr>removedAt := editedAt\<rparr>"

definition createPosRange :: "RGATreeSplitNode \<Rightarrow> RGATreeSplitPosRange" where
  "createPosRange n =
     (\<lparr>pos_id = nid n, relativeOffset = 0\<rparr>, \<lparr>pos_id = nid n, relativeOffset = getLength n\<rparr>)"

definition node_getDataSize :: "Sizes \<Rightarrow> RGATreeSplitNode \<Rightarrow> Heap \<Rightarrow> DataSize" where
  "node_getDataSize sz n h =
     (let d0 = (case val n of None \<Rightarrow> zeroDataSize | Some v \<Rightarrow> value_getDataSize sz v h);
          d1 = d0\<lparr>meta := meta d0 + TimeTicketSize sz\<rparr>
      in if removedAt n \<noteq> None then d1\<lparr>meta := meta d1 + TimeTicketSize sz\<rparr> else d1)"

text \<open>
  \<^verbatim>\<open>deepcopy\<close> of a node passes \<^verbatim>\<open>this.value\<close> itself to the constructor: the copy holds
  the same value object, hence the same \<^verbatim>\<open>RHT\<close>, as the node it was copied from.
\<close>

definition node_deepcopy :: "RGATreeSplitNode \<Rightarrow> RGATreeSplitNode" where
  "node_deepcopy n =
     \<lparr>nid = nid n, val = val n, removedAt = removedAt n, insPrev = None, insNext = None\<rparr>"

text \<open>
  A \<^verbatim>\<open>GCPair\<close> names a parent and the child to purge from it: a node of the block list
  (the parent is the list that returns the pair), or a replaced \<^verbatim>\<open>RHT\<close> node together
  with the text value that holds it.
\<close>

datatype GCPair = SplitPair RGATreeSplitNodeID | ValuePair CRDTTextValue RHTNode

section \<open>The block list\<close>

text \<open>
  An \<^verbatim>\<open>RGATreeSplit\<close> is the chain of nodes that starts at \<^verbatim>\<open>head\<close> and follows
  \<^verbatim>\<open>next\<close>; it is modelled by the list of its nodes in that order, the head first.
  \<^verbatim>\<open>getNext\<close> and \<^verbatim>\<open>getPrev\<close> read the neighbours of a node off the list.
\<close>

type_synonym RGATreeSplit = "RGATreeSplitNode list"

definition RGATreeSplit_create :: RGATreeSplit where
  "RGATreeSplit_create = [node_create InitialRGATreeSplitNodeID None]"

definition lookupNode :: "RGATreeSplitNodeID \<Rightarrow> RGATreeSplit \<Rightarrow> RGATreeSplitNode option" where
  "lookupNode k s = List.find (\<lambda>n. nid n = k) s"

fun getNext :: "RGATreeSplitNodeID \<Rightarrow> RGATreeSplit \<Rightarrow> RGATreeSplitNodeID option" where
  "getNext k [] = None"
| "getNext k (n # ns) =
     (if nid n = k then (case ns of [] \<Rightarrow> None | m # _ \<Rightarrow> Some (nid m)) else getNext k ns)"

fun getPrev :: "RGATreeSplitNodeID \<Rightarrow> RGATreeSplit \<Rightarrow> RGATreeSplitNodeID option" where
  "getPrev k [] = None"
| "getPrev k (n # ns) =
     (if nid n = k then None
      else (case ns of [] \<Rightarrow> None
            | m # _ \<Rightarrow> if nid m = k then Some (nid n) else getPrev k ns))"

definition updateNode ::
  "RGATreeSplitNodeID \<Rightarrow> (RGATreeSplitNode \<Rightarrow> RGATreeSplitNode) \<Rightarrow> RGATreeSplit \<Rightarrow> RGATreeSplit" where
  "updateNode k f s = map (\<lambda>n. if nid n = k then f n else n) s"

text \<open>\<^verbatim>\<open>a.setInsPrev(b)\<close>: \<open>a.insPrev = b\<close> and, when \<open>b\<close> is defined, \<open>b.insNext = a\<close>.\<close>

definition setInsPrev ::
  "RGATreeSplitNodeID \<Rightarrow> RGATreeSplitNodeID option \<Rightarrow> RGATreeSplit \<Rightarrow> RGATreeSplit" where
  "setInsPrev a b s =
     (let s1 = updateNode a (\<lambda>n. n\<lparr>insPrev := b\<rparr>) s in
      case b of None \<Rightarrow> s1 | Some b' \<Rightarrow> updateNode b' (\<lambda>n. n\<lparr>insNext := Some a\<rparr>) s1)"

text \<open>\<^verbatim>\<open>a.setInsNext(b)\<close>: \<open>a.insNext = b\<close> and, when \<open>b\<close> is defined, \<open>b.insPrev = a\<close>.\<close>

definition setInsNext ::
  "RGATreeSplitNodeID \<Rightarrow> RGATreeSplitNodeID option \<Rightarrow> RGATreeSplit \<Rightarrow> RGATreeSplit" where
  "setInsNext a b s =
     (let s1 = updateNode a (\<lambda>n. n\<lparr>insNext := b\<rparr>) s in
      case b of None \<Rightarrow> s1 | Some b' \<Rightarrow> updateNode b' (\<lambda>n. n\<lparr>insPrev := Some a\<rparr>) s1)"

text \<open>
  \<^verbatim>\<open>insertAfter(prevNode, newNode)\<close> links the new node behind \<open>prevNode\<close> and enters it
  into both indexes.
\<close>

fun insertAfter :: "RGATreeSplitNodeID \<Rightarrow> RGATreeSplitNode \<Rightarrow> RGATreeSplit \<Rightarrow> RGATreeSplit" where
  "insertAfter k new [] = []"
| "insertAfter k new (n # ns) = (if nid n = k then n # new # ns else n # insertAfter k new ns)"

subsection \<open>The two indexes\<close>

text \<open>
  Modelled from the spec: \<^verbatim>\<open>LLRBTree.floorEntry\<close> of \<^verbatim>\<open>util/llrb_tree.ts\<close> (not among
  the sources). The tree holds every node of the list under its identifier;
  \<^verbatim>\<open>floorEntry(id)\<close> returns the entry with the greatest key that is \<open>\<le> id\<close> under the
  comparator.
\<close>

fun floorEntry :: "RGATreeSplitNodeID \<Rightarrow> RGATreeSplit \<Rightarrow> RGATreeSplitNode option" where
  "floorEntry k [] = None"
| "floorEntry k (n # ns) =
     (case floorEntry k ns of
        None \<Rightarrow> if compareID (nid n) k \<le> 0 then Some n else None
      | Some m \<Rightarrow>
          if compareID (nid n) k \<le> 0 \<and> compareID (nid m) (nid n) < 0 then Some n else Some m)"

text \<open>
  Modelled from the spec: \<^verbatim>\<open>SplayTree.indexOf\<close>, \<^verbatim>\<open>SplayTree.find\<close> and
  \<^verbatim>\<open>SplayTree.length\<close> of \<^verbatim>\<open>util/splay_tree.ts\<close> (not among the sources). The tree holds
  the nodes in document order, each weighted by its \<^verbatim>\<open>getLength()\<close> (0 if removed).
  \<^verbatim>\<open>indexOf(node)\<close> is the sum of the weights before the node; \<^verbatim>\<open>find(index)\<close> returns
  the node whose prefix sum covers the index, with the residual offset, and fails when the
  index is out of range; \<^verbatim>\<open>length\<close> is the total weight.
\<close>

fun indexOf :: "RGATreeSplitNodeID \<Rightarrow> RGATreeSplit \<Rightarrow> nat" where
  "indexOf k [] = 0"
| "indexOf k (n # ns) = (if nid n = k then 0 else getLength n + indexOf k ns)"

fun splay_find :: "nat \<Rightarrow> RGATreeSplit \<Rightarrow> error + (RGATreeSplitNode \<times> nat)" where
  "splay_find i [] = Inl (YorkieError ErrInvalidArgument)"
| "splay_find i (n # ns) = (if i \<le> getLength n then Inr (n, i) else splay_find (i - getLength n) ns)"

definition split_length :: "RGATreeSplit \<Rightarrow> nat" where
  "split_length s = sum_list (map getLength s)"

subsection \<open>Lookups\<close>

definition findFloorNode :: "RGATreeSplitNodeID \<Rightarrow> RGATreeSplit \<Rightarrow> RGATreeSplitNode option" where
  "findFloorNode i s =
     (case floorEntry i s of
        None \<Rightarrow> None
      | Some e \<Rightarrow>
          if \<not> equalsID (nid e) i \<and> \<not> hasSameCreatedAt (nid e) i then None else Some e)"

definition findFloorNodePreferToLeft ::
  "RGATreeSplitNodeID \<Rightarrow> RGATreeSplit \<Rightarrow> error + RGATreeSplitNode" where
  "findFloorNodePreferToLeft i s =
     (case findFloorNode i s of
        None \<Rightarrow> Inl (YorkieError ErrInvalidArgument)
      | Some node \<Rightarrow>
          if offset i > 0 \<and> offset (nid node) = offset i then
            (case insPrev node of
               None \<Rightarrow> Inr node
             | Some p \<Rightarrow> (case lookupNode p s of None \<Rightarrow> Inl TypeError | Some q \<Rightarrow> Inr q))
          else Inr node)"

definition findNode :: "RGATreeSplitNodeID \<Rightarrow> RGATreeSplit \<Rightarrow> RGATreeSplitNode option" where
  "findNode i s = findFloorNode i s"

definition indexToPos :: "nat \<Rightarrow> RGATreeSplit \<Rightarrow> error + RGATreeSplitPos" where
  "indexToPos idx s =
     (case splay_find idx s of
        Inl e \<Rightarrow> Inl e
      | Inr (node, off) \<Rightarrow> Inr \<lparr>pos_id = nid node, relativeOffset = off\<rparr>)"

definition posToIndex :: "RGATreeSplitPos \<Rightarrow> bool \<Rightarrow> RGATreeSplit \<Rightarrow> error + int" where
  "posToIndex pos preferToLeft s =
     (let absoluteID = getAbsoluteID pos in
      case (if preferToLeft then findFloorNodePreferToLeft absoluteID s
            else (case findFloorNode absoluteID s of
                    None \<Rightarrow> Inl (YorkieError ErrInvalidArgument)
                  | Some n \<Rightarrow> Inr n)) of
        Inl e \<Rightarrow> Inl e
      | Inr node \<Rightarrow>
          (let index = int (indexOf (nid node) s);
               off = (if isRemoved node then 0
                      else int (offset absoluteID) - int (offset (nid node)))
           in Inr (index + off)))"

definition findIndexesFromRange ::
  "RGATreeSplitPosRange \<Rightarrow> RGATreeSplit \<Rightarrow> error + (int \<times> int)" where
  "findIndexesFromRange rng s =
     (case posToIndex (fst rng) False s of
        Inl e \<Rightarrow> Inl e
      | Inr fromIdx \<Rightarrow>
          (case posToIndex (snd rng) True s of
             Inl e \<Rightarrow> Inl e
           | Inr toIdx \<Rightarrow> Inr (fromIdx, toIdx)))"

definition toString :: "RGATreeSplit \<Rightarrow> string" where
  "toString s =
     concat (map (\<lambda>n. case val n of None \<Rightarrow> [] | Some v \<Rightarrow> content v)
               (filter (\<lambda>n. \<not> isRemoved n) (tl s)))"

subsection \<open>Splitting\<close>

text \<open>
  \<^verbatim>\<open>splitNode(node, offset)\<close> returns the node at the right of the cut and the change of
  the data size; the list and the heap are returned with it. When the cut is inside the
  node, \<^verbatim>\<open>splitValue\<close> gives the node a new value with the left half and builds the value
  of the right half; the new node is inserted behind the node and linked into the
  insertion chain.
\<close>

definition splitNode ::
  "Sizes \<Rightarrow> RGATreeSplitNodeID \<Rightarrow> int \<Rightarrow> RGATreeSplit \<Rightarrow> Heap
     \<Rightarrow> (error + (RGATreeSplitNodeID option \<times> DataSize)) \<times> RGATreeSplit \<times> Heap" where
  "splitNode sz k off s h =
     (case lookupNode k s of
        None \<Rightarrow> (Inl TypeError, s, h)
      | Some node \<Rightarrow>
          if off > int (getContentLength node) then (Inl (YorkieError ErrInvalidArgument), s, h)
          else if off = 0 then (Inr (Some k, zeroDataSize), s, h)
          else if off = int (getContentLength node) then (Inr (getNext k s, zeroDataSize), s, h)
          else
            (case val node of
               None \<Rightarrow> (Inl TypeError, s, h)
             | Some v \<Rightarrow>
                 (let prvSize = node_getDataSize sz node h;
                      (leftV, h1) = value_substring 0 off v h;
                      (rightV, h2) = value_substring off (int (length (content v))) v h1;
                      node' = node\<lparr>val := Some leftV\<rparr>;
                      splitN = \<lparr>nid = id_split (nid node) off, val = Some rightV,
                                removedAt = removedAt node, insPrev = None, insNext = None\<rparr>;
                      s1 = updateNode k (\<lambda>n. n\<lparr>val := Some leftV\<rparr>) s;
                      s2 = insertAfter k splitN s1;
                      s3 = (case insNext node of
                              None \<Rightarrow> s2
                            | Some nx \<Rightarrow> setInsPrev nx (Some (nid splitN)) s2);
                      s4 = setInsPrev (nid splitN) (Some k) s3;
                      diff = subDataSize
                               (addDataSize
                                  (addDataSize zeroDataSize (node_getDataSize sz node' h2))
                                  (node_getDataSize sz splitN h2))
                               prvSize
                  in (Inr (Some (nid splitN), diff), s4, h2))))"

text \<open>
  The loop of \<^verbatim>\<open>findNodeWithSplit\<close> that walks over the nodes created after
  \<open>editedAt\<close>; the list argument holds the nodes behind the current one.
\<close>

fun skipAfter :: "TimeTicket \<Rightarrow> RGATreeSplitNodeID \<Rightarrow> RGATreeSplitNode list \<Rightarrow> RGATreeSplitNodeID" where
  "skipAfter t cur [] = cur"
| "skipAfter t cur (m # ms) =
     (if after (getCreatedAt m) t then skipAfter t (nid m) ms else cur)"

definition nodesBehind :: "RGATreeSplitNodeID \<Rightarrow> RGATreeSplit \<Rightarrow> RGATreeSplitNode list" where
  "nodesBehind k s = tl (dropWhile (\<lambda>n. nid n \<noteq> k) s)"

definition findNodeWithSplit ::
  "Sizes \<Rightarrow> RGATreeSplitPos \<Rightarrow> TimeTicket \<Rightarrow> RGATreeSplit \<Rightarrow> Heap
     \<Rightarrow> (error + (RGATreeSplitNodeID \<times> DataSize \<times> RGATreeSplitNodeID option))
         \<times> RGATreeSplit \<times> Heap" where
  "findNodeWithSplit sz pos editedAt s h =
     (let absoluteID = getAbsoluteID pos in
      case findFloorNodePreferToLeft absoluteID s of
        Inl e \<Rightarrow> (Inl e, s, h)
      | Inr node \<Rightarrow>
          (let relOff = int (offset absoluteID) - int (offset (nid node)) in
           case splitNode sz (nid node) relOff s h of
             (Inl e, s1, h1) \<Rightarrow> (Inl e, s1, h1)
           | (Inr (_, diff), s1, h1) \<Rightarrow>
               (let node' = skipAfter editedAt (nid node) (nodesBehind (nid node) s1)
                in (Inr (node', diff, getNext node' s1), s1, h1))))"

subsection \<open>Deleting\<close>

definition findBetween ::
  "RGATreeSplitNodeID option \<Rightarrow> RGATreeSplitNodeID option \<Rightarrow> RGATreeSplit
     \<Rightarrow> RGATreeSplitNode list" where
  "findBetween fromNode toNode s =
     (case fromNode of
        None \<Rightarrow> []
      | Some f \<Rightarrow> takeWhile (\<lambda>n. Some (nid n) \<noteq> toNode) (dropWhile (\<lambda>n. nid n \<noteq> f) s))"

text \<open>
  \<^verbatim>\<open>candidates[0]\<close> of an empty array is \<^verbatim>\<open>undefined\<close>, and reading its neighbour raises.
\<close>

definition findEdgesOfCandidates ::
  "RGATreeSplitNode list \<Rightarrow> RGATreeSplit
     \<Rightarrow> error + (RGATreeSplitNode option \<times> RGATreeSplitNode option)" where
  "findEdgesOfCandidates candidates s =
     (case candidates of
        [] \<Rightarrow> Inl TypeError
      | first # _ \<Rightarrow>
          Inr (Option.bind (getPrev (nid first) s) (\<lambda>k. lookupNode k s),
               Option.bind (getNext (nid (last candidates)) s) (\<lambda>k. lookupNode k s)))"

definition clientLamportAtChange :: "VersionVector option \<Rightarrow> ActorID \<Rightarrow> int" where
  "clientLamportAtChange versionVector a =
     (case versionVector of
        None \<Rightarrow> MaxLamport
      | Some vv \<Rightarrow> (case vv a of None \<Rightarrow> 0 | Some l \<Rightarrow> if l \<noteq> 0 then l else 0))"

fun filterLoop ::
  "TimeTicket \<Rightarrow> VersionVector option \<Rightarrow> RGATreeSplitNode list
     \<Rightarrow> RGATreeSplitNode list \<times> RGATreeSplitNode option list" where
  "filterLoop editedAt vv [] = ([], [])"
| "filterLoop editedAt vv (node # rest) =
     (let (del, keep) = filterLoop editedAt vv rest in
      if canDelete editedAt (clientLamportAtChange vv (actorID (getCreatedAt node))) node
      then (node # del, keep)
      else (del, Some node # keep))"

definition filterNodes ::
  "RGATreeSplitNode list \<Rightarrow> TimeTicket \<Rightarrow> VersionVector option \<Rightarrow> RGATreeSplit
     \<Rightarrow> error + (RGATreeSplitNode list \<times> RGATreeSplitNode option list)" where
  "filterNodes candidates editedAt vv s =
     (case findEdgesOfCandidates candidates s of
        Inl e \<Rightarrow> Inl e
      | Inr (leftEdge, rightEdge) \<Rightarrow>
          (let (nodesToDelete, kept) = filterLoop editedAt vv candidates
           in Inr (nodesToDelete, [leftEdge] @ kept @ [rightEdge])))"

record ValueChange =
  vc_actor :: ActorID
  vc_from :: int
  vc_to :: int
  vc_value :: "CRDTTextValue option"

text \<open>
  The loop of \<^verbatim>\<open>makeChanges\<close> over the adjacent pairs of boundaries, before the final
  \<^verbatim>\<open>reverse\<close>. Reading a property of an undefined boundary raises a \<^verbatim>\<open>TypeError\<close>.
\<close>

fun makeChangesLoop ::
  "TimeTicket \<Rightarrow> RGATreeSplit \<Rightarrow> RGATreeSplitNode option list \<Rightarrow> error + ValueChange list" where
  "makeChangesLoop editedAt s (leftBoundary # rightBoundary # bs) =
     (case leftBoundary of
        None \<Rightarrow> Inl TypeError
      | Some lb \<Rightarrow>
          if getNext (nid lb) s = map_option nid rightBoundary
          then makeChangesLoop editedAt s (rightBoundary # bs)
          else
            (case Option.bind (getNext (nid lb) s) (\<lambda>k. lookupNode k s) of
               None \<Rightarrow> Inl TypeError
             | Some nx \<Rightarrow>
                 (case findIndexesFromRange (createPosRange nx) s of
                    Inl e \<Rightarrow> Inl e
                  | Inr (fromIdx, _) \<Rightarrow>
                      (case (case rightBoundary of
                               None \<Rightarrow> Inr (int (split_length s))
                             | Some rb \<Rightarrow>
                                 (case Option.bind (getPrev (nid rb) s) (\<lambda>k. lookupNode k s) of
                                    None \<Rightarrow> Inl TypeError
                                  | Some pv \<Rightarrow>
                                      map_sum id snd (findIndexesFromRange (createPosRange pv) s))) of
                         Inl e \<Rightarrow> Inl e
                       | Inr toIdx \<Rightarrow>
                           (case makeChangesLoop editedAt s (rightBoundary # bs) of
                              Inl e \<Rightarrow> Inl e
                            | Inr changes \<Rightarrow>
                                Inr (if fromIdx < toIdx
                                     then \<lparr>vc_actor = actorID editedAt, vc_from = fromIdx,
                                           vc_to = toIdx, vc_value = None\<rparr> # changes
                                     else changes))))))"
| "makeChangesLoop editedAt s bs = Inr []"

definition makeChanges ::
  "RGATreeSplitNode option list \<Rightarrow> TimeTicket \<Rightarrow> RGATreeSplit \<Rightarrow> error + ValueChange list" where
  "makeChanges boundaries editedAt s = map_sum id rev (makeChangesLoop editedAt s boundaries)"

text \<open>
  \<^verbatim>\<open>deleteIndexNodes\<close> only drops the weight of the tombstones from the tree by index; the
  weights of the model are read off the nodes (a removed node weighs 0), so there is no
  state for it to change. \<^verbatim>\<open>deleteNodes\<close> returns the changes and the removed nodes, in
  the order in which they were entered into the map of removed nodes.
\<close>

definition deleteNodes ::
  "RGATreeSplitNode list \<Rightarrow> TimeTicket \<Rightarrow> VersionVector option \<Rightarrow> RGATreeSplit
     \<Rightarrow> (error + (ValueChange list \<times> RGATreeSplitNodeID list)) \<times> RGATreeSplit" where
  "deleteNodes candidates editedAt vv s =
     (if candidates = [] then (Inr ([], []), s)
      else
        (case filterNodes candidates editedAt vv s of
           Inl e \<Rightarrow> (Inl e, s)
         | Inr (nodesToDelete, nodesToKeep) \<Rightarrow>
             (case makeChanges nodesToKeep editedAt s of
                Inl e \<Rightarrow> (Inl e, s)
              | Inr changes \<Rightarrow>
                  (Inr (changes,
                        foldl (\<lambda>m node. if nid node \<in> set m then m else m @ [nid node])
                          [] nodesToDelete),
                   foldl (\<lambda>st node. updateNode (nid node) (node_remove (Some editedAt)) st)
                     s nodesToDelete))))"

subsection \<open>Editing\<close>

text \<open>
  \<^verbatim>\<open>edit\<close> returns the caret position, the GC pairs (the removed nodes; their parent is
  this list), the change of the data size and the changes.
\<close>

definition edit ::
  "Sizes \<Rightarrow> RGATreeSplitPosRange \<Rightarrow> TimeTicket \<Rightarrow> CRDTTextValue option \<Rightarrow> VersionVector option
     \<Rightarrow> RGATreeSplit \<Rightarrow> Heap
     \<Rightarrow> (error + (RGATreeSplitPos \<times> GCPair list \<times> DataSize \<times> ValueChange list))
         \<times> RGATreeSplit \<times> Heap" where
  "edit sz rng editedAt v vv s h =
     (case findNodeWithSplit sz (snd rng) editedAt s h of
        (Inl e, s1, h1) \<Rightarrow> (Inl e, s1, h1)
      | (Inr (toLeft, diffTo, toRight), s1, h1) \<Rightarrow>
     (case findNodeWithSplit sz (fst rng) editedAt s1 h1 of
        (Inl e, s2, h2) \<Rightarrow> (Inl e, s2, h2)
      | (Inr (fromLeft, diffFrom, fromRight), s2, h2) \<Rightarrow>
     (let diff = addDataSize (addDataSize zeroDataSize diffTo) diffFrom;
          nodesToDelete = findBetween fromRight toRight s2
      in
      case deleteNodes nodesToDelete editedAt vv s2 of
        (Inl e, s3) \<Rightarrow> (Inl e, s3, h2)
      | (Inr (changes, removedNodes), s3) \<Rightarrow>
     (let caretID = (case toRight of Some r \<Rightarrow> r | None \<Rightarrow> toLeft);
          caretPos = \<lparr>pos_id = caretID, relativeOffset = 0\<rparr>;
          pairs = map SplitPair removedNodes
      in
      case v of
        None \<Rightarrow> (Inr (caretPos, pairs, diff, changes), s3, h2)
      | Some value \<Rightarrow>
          (case lookupNode fromLeft s3 of
             None \<Rightarrow> (Inl TypeError, s3, h2)
           | Some fl \<Rightarrow>
          (case posToIndex (snd (createPosRange fl)) True s3 of
             Inl e \<Rightarrow> (Inl e, s3, h2)
           | Inr idx \<Rightarrow>
               (let inserted = node_create \<lparr>createdAt = editedAt, offset = 0\<rparr> (Some value);
                    s4 = insertAfter fromLeft inserted s3;
                    diff' = addDataSize diff (node_getDataSize sz inserted h2);
                    changes' =
                      (if changes \<noteq> [] \<and> vc_from (last changes) = idx
                       then butlast changes @ [(last changes)\<lparr>vc_value := Some value\<rparr>]
                       else changes @ [\<lparr>vc_actor = actorID editedAt, vc_from = idx,
                                        vc_to = idx, vc_value = Some value\<rparr>])
                in (Inr (\<lparr>pos_id = nid inserted, relativeOffset = getContentLength inserted\<rparr>,
                         pairs, diff', changes'),
                    s4, h2))))))))"

subsection \<open>Copying and purging\<close>

fun deepcopyLoop ::
  "RGATreeSplitNode list \<Rightarrow> RGATreeSplitNodeID \<Rightarrow> RGATreeSplit \<Rightarrow> RGATreeSplit" where
  "deepcopyLoop [] prev clone = clone"
| "deepcopyLoop (node # rest) prev clone =
     (let c1 = insertAfter prev (node_deepcopy node) clone;
          c2 = (case insPrev node of
                  None \<Rightarrow> c1
                | Some p \<Rightarrow> setInsPrev (nid node) (map_option nid (findNode p c1)) c1)
      in deepcopyLoop rest (nid node) c2)"

definition deepcopy :: "RGATreeSplit \<Rightarrow> RGATreeSplit" where
  "deepcopy s = deepcopyLoop (tl s) InitialRGATreeSplitNodeID RGATreeSplit_create"

text \<open>
  \<^verbatim>\<open>purge(node)\<close> takes the node out of both indexes and out of the chain, and joins its
  insertion neighbours.
\<close>

definition purge :: "RGATreeSplitNodeID \<Rightarrow> RGATreeSplit \<Rightarrow> RGATreeSplit" where
  "purge k s =
     (case lookupNode k s of
        None \<Rightarrow> s
      | Some node \<Rightarrow>
          (let s1 = filter (\<lambda>n. nid n \<noteq> k) s;
               s2 = (case insPrev node of None \<Rightarrow> s1 | Some p \<Rightarrow> setInsNext p (insNext node) s1);
               s3 = (case insNext node of None \<Rightarrow> s2 | Some x \<Rightarrow> setInsPrev x (insPrev node) s2)
           in s3))"

section \<open>Text element\<close>

record CRDTText =
  rgaTreeSplit :: RGATreeSplit
  text_createdAt :: TimeTicket
  text_removedAt :: "TimeTicket option"

datatype TextChangeType = Content | Style

text \<open>
  The attributes of a change are kept as the key/value strings they were given as; the
  JSON parsing of the values (\<^verbatim>\<open>parseObjectValues\<close>) is not modelled.
\<close>

record TextValueType =
  tv_attributes :: "(string \<times> string) list option"
  tv_content :: "string option"

record TextChange =
  tc_type :: TextChangeType
  tc_actor :: ActorID
  tc_from :: int
  tc_to :: int
  tc_value :: TextValueType

text \<open>
  Modelled from the spec: \<^verbatim>\<open>RHT.toObject\<close> of \<^verbatim>\<open>crdt/rht.ts\<close>, the key/value pairs of
  the table.
\<close>

definition rht_toObject :: "RHT \<Rightarrow> (string \<times> string) list" where
  "rht_toObject r = map (\<lambda>n. (rkey n, rvalue n)) r"

fun createAttrs ::
  "TimeTicket \<Rightarrow> CRDTTextValue \<Rightarrow> (string \<times> string) list \<Rightarrow> Heap \<Rightarrow> Heap" where
  "createAttrs t v [] h = h"
| "createAttrs t v ((k, c) # rest) h = createAttrs t v rest (snd (setAttr k c t v h))"

definition text_edit ::
  "Sizes \<Rightarrow> RGATreeSplitPosRange \<Rightarrow> string \<Rightarrow> TimeTicket \<Rightarrow> (string \<times> string) list option
     \<Rightarrow> VersionVector option \<Rightarrow> CRDTText \<Rightarrow> Heap
     \<Rightarrow> (error + (TextChange list \<times> GCPair list \<times> DataSize \<times> RGATreeSplitPosRange))
         \<times> CRDTText \<times> Heap" where
  "text_edit sz rng cont editedAt attrs vv text h =
     (let (crdtTextValue, h0) =
            (if cont \<noteq> [] then (case CRDTTextValue_create cont h of (v, h') \<Rightarrow> (Some v, h'))
             else (None, h));
          h1 = (case (crdtTextValue, attrs) of
                  (Some v, Some as) \<Rightarrow> createAttrs editedAt v as h0
                | _ \<Rightarrow> h0)
      in
      case edit sz rng editedAt crdtTextValue vv (rgaTreeSplit text) h1 of
        (Inl e, s', h') \<Rightarrow> (Inl e, text\<lparr>rgaTreeSplit := s'\<rparr>, h')
      | (Inr (caretPos, pairs, diff, valueChanges), s', h') \<Rightarrow>
          (Inr (map (\<lambda>change.
                       \<lparr>tc_type = Content, tc_actor = vc_actor change,
                        tc_from = vc_from change, tc_to = vc_to change,
                        tc_value =
                          (case vc_value change of
                             Some v \<Rightarrow> \<lparr>tv_attributes = Some (rht_toObject (getAttrs v h')),
                                        tv_content = Some (content v)\<rparr>
                           | None \<Rightarrow> \<lparr>tv_attributes = None, tv_content = Some []\<rparr>)\<rparr>)
                  valueChanges,
                pairs, diff, (caretPos, caretPos)),
           text\<lparr>rgaTreeSplit := s'\<rparr>, h'))"

text \<open>
  The inner loop of \<^verbatim>\<open>setStyle\<close> over the attribute entries of one node: each entry is
  set on the value of the node, a replaced \<^verbatim>\<open>RHT\<close> node gives a GC pair, and the size of
  the node now stored under the key is added to \<open>diff\<close>.
\<close>

fun setAttrLoop ::
  "Sizes \<Rightarrow> TimeTicket \<Rightarrow> CRDTTextValue option \<Rightarrow> (string \<times> string) list
     \<Rightarrow> GCPair list \<Rightarrow> DataSize \<Rightarrow> Heap \<Rightarrow> (error + (GCPair list \<times> DataSize)) \<times> Heap" where
  "setAttrLoop sz t v [] pairs diff h = (Inr (pairs, diff), h)"
| "setAttrLoop sz t v ((key, value) # rest) pairs diff h =
     (case v of
        None \<Rightarrow> (Inl TypeError, h)
      | Some tv \<Rightarrow>
          (case setAttr key value t tv h of
             ((prev, _), h1) \<Rightarrow>
               (let pairs1 = (case prev of None \<Rightarrow> pairs | Some p \<Rightarrow> pairs @ [ValuePair tv p]);
                    diff1 = (case rht_get key (getAttrs tv h1) of
                               None \<Rightarrow> diff
                             | Some cur \<Rightarrow> addDataSize diff (rhtNodeDataSize sz cur))
                in setAttrLoop sz t v rest pairs1 diff1 h1)))"

text \<open>The loop of \<^verbatim>\<open>setStyle\<close> over the nodes to be styled; removed nodes are skipped.\<close>

fun styleLoop ::
  "Sizes \<Rightarrow> (string \<times> string) list \<Rightarrow> TimeTicket \<Rightarrow> RGATreeSplit \<Rightarrow> RGATreeSplitNode list
     \<Rightarrow> GCPair list \<Rightarrow> DataSize \<Rightarrow> TextChange list \<Rightarrow> Heap
     \<Rightarrow> (error + (GCPair list \<times> DataSize \<times> TextChange list)) \<times> Heap" where
  "styleLoop sz attrs editedAt s [] pairs diff changes h = (Inr (pairs, diff, changes), h)"
| "styleLoop sz attrs editedAt s (node # rest) pairs diff changes h =
     (if isRemoved node then styleLoop sz attrs editedAt s rest pairs diff changes h
      else
        (case findIndexesFromRange (createPosRange node) s of
           Inl e \<Rightarrow> (Inl e, h)
         | Inr (fromIdx, toIdx) \<Rightarrow>
             (let changes1 = changes @
                    [\<lparr>tc_type = Style, tc_actor = actorID editedAt, tc_from = fromIdx,
                      tc_to = toIdx,
                      tc_value = \<lparr>tv_attributes = Some attrs, tv_content = None\<rparr>\<rparr>]
              in case setAttrLoop sz editedAt (val node) attrs pairs diff h of
                   (Inl e, h1) \<Rightarrow> (Inl e, h1)
                 | (Inr (pairs1, diff1), h1) \<Rightarrow>
                     styleLoop sz attrs editedAt s rest pairs1 diff1 changes1 h1)))"

definition setStyle ::
  "Sizes \<Rightarrow> RGATreeSplitPosRange \<Rightarrow> (string \<times> string) list \<Rightarrow> TimeTicket
     \<Rightarrow> VersionVector option \<Rightarrow> CRDTText \<Rightarrow> Heap
     \<Rightarrow> (error + (GCPair list \<times> DataSize \<times> TextChange list)) \<times> CRDTText \<times> Heap" where
  "setStyle sz rng attrs editedAt vv text h =
     (case findNodeWithSplit sz (snd rng) editedAt (rgaTreeSplit text) h of
        (Inl e, s1, h1) \<Rightarrow> (Inl e, text\<lparr>rgaTreeSplit := s1\<rparr>, h1)
      | (Inr (_, diffTo, toRight), s1, h1) \<Rightarrow>
     (case findNodeWithSplit sz (fst rng) editedAt s1 h1 of
        (Inl e, s2, h2) \<Rightarrow> (Inl e, text\<lparr>rgaTreeSplit := s2\<rparr>, h2)
      | (Inr (_, diffFrom, fromRight), s2, h2) \<Rightarrow>
     (let diff = addDataSize (addDataSize zeroDataSize diffTo) diffFrom;
          nodes = findBetween fromRight toRight s2;
          toBeStyleds =
            filter (\<lambda>node. canStyle editedAt
                             (clientLamportAtChange vv (actorID (getCreatedAt node))) node)
              nodes
      in case styleLoop sz attrs editedAt s2 toBeStyleds [] diff [] h2 of
           (r, h3) \<Rightarrow> (r, text\<lparr>rgaTreeSplit := s2\<rparr>, h3))))"

definition indexRangeToPosRange :: "nat \<Rightarrow> nat \<Rightarrow> CRDTText \<Rightarrow> error + RGATreeSplitPosRange" where
  "indexRangeToPosRange fromIdx toIdx text =
     (case indexToPos fromIdx (rgaTreeSplit text) of
        Inl e \<Rightarrow> Inl e
      | Inr fromPos \<Rightarrow>
          if fromIdx = toIdx then Inr (fromPos, fromPos)
          else (case indexToPos toIdx (rgaTreeSplit text) of
                  Inl e \<Rightarrow> Inl e
                | Inr toPos \<Rightarrow> Inr (fromPos, toPos)))"

definition text_deepcopy :: "CRDTText \<Rightarrow> CRDTText" where
  "text_deepcopy text =
     \<lparr>rgaTreeSplit = deepcopy (rgaTreeSplit text), text_createdAt = text_createdAt text,
      text_removedAt = text_removedAt text\<rparr>"

section \<open>Root\<close>

text \<open>
  The classes of the other element kinds are not among the sources; they are represented
  by their kind.
\<close>

datatype ElementKind = ObjectKind | ArrayKind | CounterKind | TreeKind | PrimitiveKind

datatype CRDTElement = TextElement CRDTText | OtherElement ElementKind

datatype GCChild = SplitChild RGATreeSplitNodeID | RHTChild TimeTicket string

record DocSize =
  live :: DataSize
  gc :: DataSize

record CRDTRoot =
  elementMap :: "TimeTicket \<rightharpoonup> CRDTElement"
  gcPairMap :: "GCChild \<rightharpoonup> GCPair"
  docSize :: DocSize

text \<open>
  Modelled from the spec: the methods of \<^verbatim>\<open>CRDTRoot\<close> (\<^verbatim>\<open>crdt/root.ts\<close>, not among the
  sources) that the modelled code calls. \<^verbatim>\<open>findByCreatedAt\<close> looks the ticket up in the
  element map; \<^verbatim>\<open>acc(diff)\<close> adds the pair to the live bucket; \<^verbatim>\<open>registerGCPair\<close> stores
  the pair under the identifier of its child, replacing any prior pair for that child;
  \<^verbatim>\<open>deepcopy\<close> copies every element deeply; \<^verbatim>\<open>totalDocSize\<close> (\<^verbatim>\<open>util/resource.ts\<close>) is the
  total of the live and gc buckets.
\<close>

definition findByCreatedAt :: "TimeTicket \<Rightarrow> CRDTRoot \<Rightarrow> CRDTElement option" where
  "findByCreatedAt t root = elementMap root t"

definition root_acc :: "DataSize \<Rightarrow> CRDTRoot \<Rightarrow> CRDTRoot" where
  "root_acc diff root = root\<lparr>docSize := (docSize root)\<lparr>live := addDataSize (live (docSize root)) diff\<rparr>\<rparr>"

definition gcChildOf :: "GCPair \<Rightarrow> GCChild" where
  "gcChildOf pair =
     (case pair of
        SplitPair i \<Rightarrow> SplitChild i
      | ValuePair v n \<Rightarrow> RHTChild (updatedAt n) (rkey n))"

definition registerGCPair :: "GCPair \<Rightarrow> CRDTRoot \<Rightarrow> CRDTRoot" where
  "registerGCPair pair root = root\<lparr>gcPairMap := (gcPairMap root)(gcChildOf pair \<mapsto> pair)\<rparr>"

definition element_deepcopy :: "CRDTElement \<Rightarrow> CRDTElement" where
  "element_deepcopy e =
     (case e of TextElement t \<Rightarrow> TextElement (text_deepcopy t) | OtherElement k \<Rightarrow> OtherElement k)"

definition root_deepcopy :: "CRDTRoot \<Rightarrow> CRDTRoot" where
  "root_deepcopy root = root\<lparr>elementMap := map_option element_deepcopy \<circ> elementMap root\<rparr>"

definition totalDocSize :: "DocSize \<Rightarrow> int" where
  "totalDocSize d = data (live d) + meta (live d) + data (gc d) + meta (gc d)"

section \<open>Style operation\<close>

datatype OpSource = Local | Remote | UndoRedo

record StyleOperation =
  parentCreatedAt :: TimeTicket
  executedAt :: TimeTicket
  fromPos :: RGATreeSplitPos
  toPos :: RGATreeSplitPos
  op_attributes :: "(string \<times> string) list option"

datatype OperationInfo =
    StyleInfo int int TextValueType string
  | OtherInfo string

text \<open>
  \<^verbatim>\<open>execute\<close> looks the parent up, styles it and accounts for the result in the root. The
  text is an object of the root, so what \<^verbatim>\<open>setStyle\<close> did to it is in the root also when
  \<^verbatim>\<open>setStyle\<close> raises. \<^verbatim>\<open>createPath\<close> of the root is a parameter.
\<close>

definition StyleOperation_execute ::
  "Sizes \<Rightarrow> (CRDTRoot \<Rightarrow> TimeTicket \<Rightarrow> string) \<Rightarrow> StyleOperation \<Rightarrow> VersionVector option
     \<Rightarrow> CRDTRoot \<Rightarrow> Heap \<Rightarrow> (error + OperationInfo list) \<times> CRDTRoot \<times> Heap" where
  "StyleOperation_execute sz createPath op versionVector root h =
     (case findByCreatedAt (parentCreatedAt op) root of
        None \<Rightarrow> (Inl (YorkieError ErrInvalidArgument), root, h)
      | Some parentObject \<Rightarrow>
          (case parentObject of
             OtherElement k \<Rightarrow> (Inl (YorkieError ErrInvalidArgument), root, h)
           | TextElement text \<Rightarrow>
               (case setStyle sz (fromPos op, toPos op)
                       (case op_attributes op of Some as \<Rightarrow> as | None \<Rightarrow> [])
                       (executedAt op) versionVector text h of
                  (Inl e, text', h') \<Rightarrow>
                    (Inl e,
                     root\<lparr>elementMap := (elementMap root)(parentCreatedAt op \<mapsto> TextElement text')\<rparr>,
                     h')
                | (Inr (pairs, diff, changes), text', h') \<Rightarrow>
                    (let root1 = root\<lparr>elementMap :=
                                   (elementMap root)(parentCreatedAt op \<mapsto> TextElement text')\<rparr>;
                         root2 = root_acc diff root1;
                         root3 = foldl (\<lambda>r pair. registerGCPair pair r) root2 pairs
                     in (Inr (map (\<lambda>c. StyleInfo (tc_from c) (tc_to c) (tc_value c)
                                          (createPath root3 (parentCreatedAt op)))
                                changes),
                         root3, h')))))"

section \<open>Change identifiers, changes and the change context\<close>

record ChangeID =
  clientSeq :: nat
  serverSeq :: nat
  cid_lamport :: int
  cid_actor :: ActorID
  cid_versionVector :: VersionVector

text \<open>
  Modelled from the spec: \<^verbatim>\<open>ChangeID.next\<close> and \<^verbatim>\<open>ChangeID.createTimeTicket\<close> of
  \<^verbatim>\<open>change/change_id.ts\<close> (not among the sources). \<^verbatim>\<open>next(excludeClocks)\<close> returns a
  successor: with \<^verbatim>\<open>excludeClocks\<close> the clocks are preserved as they are, otherwise the
  lamport and the own entry of the version vector are both incremented.
  \<^verbatim>\<open>createTimeTicket(delimiter)\<close> builds the ticket of lamport, delimiter and actor.
\<close>

definition ChangeID_next :: "bool \<Rightarrow> ChangeID \<Rightarrow> ChangeID" where
  "ChangeID_next excludeClocks i =
     (if excludeClocks then i\<lparr>clientSeq := clientSeq i + 1\<rparr>
      else i\<lparr>clientSeq := clientSeq i + 1, cid_lamport := cid_lamport i + 1,
             cid_versionVector := (cid_versionVector i)(cid_actor i \<mapsto> cid_lamport i + 1)\<rparr>)"

definition createTimeTicket :: "nat \<Rightarrow> ChangeID \<Rightarrow> TimeTicket" where
  "createTimeTicket d i = \<lparr>lamport = cid_lamport i, delimiter = d, actorID = cid_actor i\<rparr>"

definition setLamport :: "int \<Rightarrow> ChangeID \<Rightarrow> ChangeID" where
  "setLamport l i = i\<lparr>cid_lamport := l\<rparr>"

definition setVersionVector :: "VersionVector \<Rightarrow> ChangeID \<Rightarrow> ChangeID" where
  "setVersionVector vv i = i\<lparr>cid_versionVector := vv\<rparr>"

text \<open>Modelled from the spec: the delimiter counter of a context starts at \<^verbatim>\<open>InitialDelimiter\<close>.\<close>

definition InitialDelimiter :: nat where
  "InitialDelimiter = 0"

text \<open>
  An operation is a \<^verbatim>\<open>StyleOperation\<close> or one of the operations whose classes are not
  among the sources; of those the two tickets and a description are kept.
\<close>

datatype Operation = StyleOp StyleOperation | OtherOp TimeTicket TimeTicket string

definition setExecutedAt :: "TimeTicket \<Rightarrow> Operation \<Rightarrow> Operation" where
  "setExecutedAt t op =
     (case op of
        StyleOp so \<Rightarrow> StyleOp (so\<lparr>executedAt := t\<rparr>)
      | OtherOp p e d \<Rightarrow> OtherOp p t d)"

type_synonym Presence = "(string \<times> string) list"

datatype PresenceChange = Put Presence | Clear

record Change =
  change_id :: ChangeID
  change_operations :: "Operation list"
  change_presenceChange :: "PresenceChange option"
  change_message :: "string option"

record ChangeContext =
  prevID :: ChangeID
  nextID :: ChangeID
  ctx_delimiter :: nat
  ctx_message :: "string option"
  ctx_root :: CRDTRoot
  operations :: "Operation list"
  presenceChange :: "PresenceChange option"
  previousPresence :: Presence
  reversePresenceKeys :: "string list"

definition ChangeContext_create ::
  "ChangeID \<Rightarrow> CRDTRoot \<Rightarrow> Presence \<Rightarrow> string option \<Rightarrow> ChangeContext" where
  "ChangeContext_create prev root presence message =
     \<lparr>prevID = prev, nextID = ChangeID_next False prev, ctx_delimiter = InitialDelimiter,
      ctx_message = message, ctx_root = root, operations = [], presenceChange = None,
      previousPresence = presence, reversePresenceKeys = []\<rparr>"

definition push :: "Operation \<Rightarrow> ChangeContext \<Rightarrow> ChangeContext" where
  "push operation ctx = ctx\<lparr>operations := operations ctx @ [operation]\<rparr>"

definition ctx_registerGCPair :: "GCPair \<Rightarrow> ChangeContext \<Rightarrow> ChangeContext" where
  "ctx_registerGCPair pair ctx = ctx\<lparr>ctx_root := registerGCPair pair (ctx_root ctx)\<rparr>"

definition isPresenceOnlyChange :: "ChangeContext \<Rightarrow> bool" where
  "isPresenceOnlyChange ctx = (length (operations ctx) = 0)"

definition getNextID :: "ChangeContext \<Rightarrow> ChangeID" where
  "getNextID ctx =
     (if isPresenceOnlyChange ctx
      then setVersionVector (cid_versionVector (prevID ctx))
             (setLamport (cid_lamport (prevID ctx)) (ChangeID_next True (prevID ctx)))
      else nextID ctx)"

definition toChange :: "ChangeContext \<Rightarrow> Change" where
  "toChange ctx =
     (let i = (if isPresenceOnlyChange ctx then ChangeID_next True (prevID ctx) else nextID ctx)
      in \<lparr>change_id = i, change_operations = operations ctx,
          change_presenceChange = presenceChange ctx, change_message = ctx_message ctx\<rparr>)"

definition hasChange :: "ChangeContext \<Rightarrow> bool" where
  "hasChange ctx = (length (operations ctx) > 0 \<or> presenceChange ctx \<noteq> None)"

definition setPresenceChange :: "PresenceChange \<Rightarrow> ChangeContext \<Rightarrow> ChangeContext" where
  "setPresenceChange pc ctx = ctx\<lparr>presenceChange := Some pc\<rparr>"

definition setReversePresence :: "string list \<Rightarrow> bool \<Rightarrow> ChangeContext \<Rightarrow> ChangeContext" where
  "setReversePresence keys addToHistory ctx =
     ctx\<lparr>reversePresenceKeys :=
           foldl (\<lambda>ks key. if addToHistory then (if key \<in> set ks then ks else ks @ [key])
                            else removeAll key ks)
             (reversePresenceKeys ctx) keys\<rparr>"

definition getReversePresence :: "ChangeContext \<Rightarrow> (string \<times> string option) list option" where
  "getReversePresence ctx =
     (if length (reversePresenceKeys ctx) = 0 then None
      else Some (map (\<lambda>key. (key, map_of (previousPresence ctx) key)) (reversePresenceKeys ctx)))"

definition issueTimeTicket :: "ChangeContext \<Rightarrow> TimeTicket \<times> ChangeContext" where
  "issueTimeTicket ctx =
     (let ctx' = ctx\<lparr>ctx_delimiter := ctx_delimiter ctx + 1\<rparr>
      in (createTimeTicket (ctx_delimiter ctx') (nextID ctx'), ctx'))"

definition getLastTimeTicket :: "ChangeContext \<Rightarrow> TimeTicket" where
  "getLastTimeTicket ctx = createTimeTicket (ctx_delimiter ctx) (nextID ctx)"

definition ctx_acc :: "DataSize \<Rightarrow> ChangeContext \<Rightarrow> ChangeContext" where
  "ctx_acc diff ctx = ctx\<lparr>ctx_root := root_acc diff (ctx_root ctx)\<rparr>"

section \<open>Document\<close>

datatype DocStatus = Detached | Attached | Removed

datatype HistoryOperation = HistOp Operation | HistPresence "(string \<times> string option) list"

datatype DocEvent =
    LocalChangeEvent OpSource string "OperationInfo list" ActorID nat nat "Change option"
  | PresenceChangedEvent OpSource ActorID "Presence option"

type_synonym Presences = "ActorID \<rightharpoonup> Presence"

type_synonym Rule = string

text \<open>
  The fields of a \<^verbatim>\<open>Document\<close> that \<^verbatim>\<open>update\<close>, \<^verbatim>\<open>undo\<close> and \<^verbatim>\<open>redo\<close> read or write.
  The two stacks of \<^verbatim>\<open>internalHistory\<close> have their top at the end of the list. The events
  handed to \<^verbatim>\<open>publish\<close> are collected in \<open>published\<close>. \<open>heap\<close> holds the \<^verbatim>\<open>RHT\<close> objects
  that the text values of the root and of the clone refer to.
\<close>

record Document =
  status :: DocStatus
  changeID :: ChangeID
  localChanges :: "Change list"
  maxSizeLimit :: int
  schemaRules :: "Rule list"
  root :: CRDTRoot
  clone :: "(CRDTRoot \<times> Presences) option"
  presences :: Presences
  undoStack :: "HistoryOperation list list"
  redoStack :: "HistoryOperation list list"
  isUpdating :: bool
  enableDevtools :: bool
  published :: "DocEvent list list"
  heap :: Heap

text \<open>
  The collaborators of the document whose sources are not available are parameters:
  the schema validator (whether the root is valid under the rules), \<^verbatim>\<open>Change.execute\<close>
  (which returns the operation infos and the reverse operations, or raises, and in both
  cases leaves its effects on the root, the presences and the heap), and
  \<^verbatim>\<open>Presence.set\<close> as \<^verbatim>\<open>undo\<close> and \<^verbatim>\<open>redo\<close> call it on a context.
\<close>

record Env =
  validateYorkieRuleset :: "CRDTRoot \<Rightarrow> Heap \<Rightarrow> Rule list \<Rightarrow> bool"
  changeExecute ::
    "Change \<Rightarrow> OpSource \<Rightarrow> CRDTRoot \<times> Presences \<times> Heap
       \<Rightarrow> (error + (OperationInfo list \<times> HistoryOperation list)) \<times> CRDTRoot \<times> Presences \<times> Heap"
  presenceSet :: "(string \<times> string option) list \<Rightarrow> ChangeContext \<Rightarrow> ChangeContext"

text \<open>
  The updater passed to \<^verbatim>\<open>update\<close> works on the context (which holds the root of the
  clone), on the presence object of the clone and on the heap; it returns normally or
  raises, and what it did before is in the state it returns.
\<close>

type_synonym Updater =
  "ChangeContext \<Rightarrow> Presence option \<Rightarrow> Heap
     \<Rightarrow> (error + unit) \<times> ChangeContext \<times> Presence option \<times> Heap"

definition ensureClone :: "Document \<Rightarrow> Document" where
  "ensureClone d =
     (case clone d of
        Some c \<Rightarrow> d
      | None \<Rightarrow> d\<lparr>clone := Some (root_deepcopy (root d), presences d)\<rparr>)"

definition getMyPresence :: "Document \<Rightarrow> Presence" where
  "getMyPresence d =
     (if status d \<noteq> Attached then []
      else (case presences d (cid_actor (changeID d)) of Some p \<Rightarrow> p | None \<Rightarrow> []))"

text \<open>
  \<^verbatim>\<open>getPresence\<close> is only called with the actor of the document itself, for which it is
  \<^verbatim>\<open>getMyPresence\<close>.
\<close>

definition makeEvents ::
  "OpSource \<Rightarrow> Change \<Rightarrow> OperationInfo list \<Rightarrow> ActorID \<Rightarrow> Document \<Rightarrow> DocEvent list" where
  "makeEvents source change opInfos actor d =
     (if length opInfos > 0
      then [LocalChangeEvent source
              (case change_message change of Some m \<Rightarrow> m | None \<Rightarrow> [])
              opInfos actor (clientSeq (change_id change)) (serverSeq (change_id change))
              (if enableDevtools d then Some change else None)]
      else []) @
     (if change_presenceChange change \<noteq> None
      then [PresenceChangedEvent source actor (Some (getMyPresence d))]
      else [])"

text \<open>Modelled from the spec: \<^verbatim>\<open>History\<close> (\<^verbatim>\<open>document/history.ts\<close>) pushes and pops lists of
  reverse operations; \<^verbatim>\<open>popUndo\<close> of an empty stack is \<^verbatim>\<open>undefined\<close>.\<close>

definition popStack :: "'a list \<Rightarrow> 'a option \<times> 'a list" where
  "popStack st = (if st = [] then (None, st) else (Some (last st), butlast st))"

text \<open>
  The call of the updater as \<^verbatim>\<open>update\<close> makes it: on a context created from the change
  identifier of the document and the root of the clone, with the presence of the actor in
  the clone.
\<close>

definition updaterCall ::
  "Updater \<Rightarrow> string option \<Rightarrow> Document
     \<Rightarrow> (error + unit) \<times> ChangeContext \<times> Presence option \<times> Heap" where
  "updaterCall updater message d =
     (let d1 = ensureClone d;
          actor = cid_actor (changeID d1)
      in case clone d1 of
           None \<Rightarrow> (Inl TypeError, ChangeContext_create (changeID d1) (root d1) [] message,
                    None, heap d1)
         | Some (cloneRoot, clonePresences) \<Rightarrow>
             updater
               (ChangeContext_create (changeID d1) cloneRoot
                  (case clonePresences actor of Some p \<Rightarrow> p | None \<Rightarrow> []) message)
               ((if presences d1 actor = None
                 then clonePresences(actor \<mapsto> []) else clonePresences) actor)
               (heap d1))"

definition update :: "Env \<Rightarrow> Updater \<Rightarrow> string option \<Rightarrow> Document \<Rightarrow> (error + unit) \<times> Document" where
  "update env updater message d =
     (if status d = Removed then (Inl (YorkieError ErrDocumentRemoved), d)
      else
        (let d1 = ensureClone d;
             actor = cid_actor (changeID d1)
         in case clone d1 of
              None \<Rightarrow> (Inl TypeError, d1)
            | Some (cloneRoot, clonePresences) \<Rightarrow>
        (let context = ChangeContext_create (changeID d1) cloneRoot
                         (case clonePresences actor of Some p \<Rightarrow> p | None \<Rightarrow> []) message;
             clonePresences1 = (if presences d1 actor = None
                                then clonePresences(actor \<mapsto> []) else clonePresences)
         in case updater context (clonePresences1 actor) (heap d1) of
              (Inl err, context', presence', h') \<Rightarrow>
                (Inl err, d1\<lparr>clone := None, isUpdating := False, heap := h'\<rparr>)
            | (Inr u, context', presence', h') \<Rightarrow>
        (let clonePresences2 = (case presence' of
                                  None \<Rightarrow> clonePresences1
                                | Some p \<Rightarrow> clonePresences1(actor \<mapsto> p));
             d2 = d1\<lparr>clone := Some (ctx_root context', clonePresences2),
                     isUpdating := False, heap := h'\<rparr>
         in if \<not> isPresenceOnlyChange context' \<and> length (schemaRules d2) > 0 \<and>
               \<not> validateYorkieRuleset env (ctx_root context') (heap d2) (schemaRules d2)
            then (Inl (YorkieError ErrDocumentSchemaValidationFailed), d2\<lparr>clone := None\<rparr>)
            else
        (let size = totalDocSize (docSize (ctx_root context'))
         in if \<not> isPresenceOnlyChange context' \<and> maxSizeLimit d2 > 0 \<and> maxSizeLimit d2 < size
            then (Inl (YorkieError ErrDocumentSizeExceedsLimit), d2\<lparr>clone := None\<rparr>)
            else if \<not> hasChange context' then (Inr (), d2)
            else
        (let change = toChange context' in
         case changeExecute env change Local (root d2, presences d2, heap d2) of
           (Inl err, root', presences', h'') \<Rightarrow>
             (Inl err, d2\<lparr>root := root', presences := presences', heap := h''\<rparr>)
         | (Inr (opInfos, reverseOps0), root', presences', h'') \<Rightarrow>
        (let reverseOps = (case getReversePresence context' of
                             None \<Rightarrow> reverseOps0
                           | Some rp \<Rightarrow> reverseOps0 @ [HistPresence rp]);
             d3 = d2\<lparr>root := root', presences := presences', heap := h'',
                     localChanges := localChanges d2 @ [change]\<rparr>;
             d4 = (if length reverseOps > 0
                   then d3\<lparr>undoStack := undoStack d3 @ [reverseOps]\<rparr> else d3);
             d5 = (if length opInfos > 0 then d4\<lparr>redoStack := []\<rparr> else d4);
             d6 = d5\<lparr>changeID := getNextID context'\<rparr>
         in (Inr (),
             d6\<lparr>published := published d6 @ [makeEvents Local change opInfos actor d6]\<rparr>))))))))"

text \<open>
  The loop of \<^verbatim>\<open>undo\<close> and \<^verbatim>\<open>redo\<close> that moves the popped operations into the context:
  a presence entry is set through a \<^verbatim>\<open>Presence\<close> over a copy of the presence of the
  clone, an operation gets a fresh ticket and is pushed.
\<close>

fun replayLoop :: "Env \<Rightarrow> HistoryOperation list \<Rightarrow> ChangeContext \<Rightarrow> ChangeContext" where
  "replayLoop env [] ctx = ctx"
| "replayLoop env (HistPresence v # rest) ctx = replayLoop env rest (presenceSet env v ctx)"
| "replayLoop env (HistOp op # rest) ctx =
     (case issueTimeTicket ctx of
        (ticket, ctx1) \<Rightarrow> replayLoop env rest (push (setExecutedAt ticket op) ctx1))"

text \<open>
  The part of \<^verbatim>\<open>undo\<close> and \<^verbatim>\<open>redo\<close> behind the two guards, which is the same in both but
  for the stack that receives the new reverse operations.
\<close>

definition replay ::
  "Env \<Rightarrow> bool \<Rightarrow> HistoryOperation list \<Rightarrow> Document \<Rightarrow> (error + unit) \<times> Document" where
  "replay env isUndo ops d0 =
     (let d1 = ensureClone d0;
          actor0 = cid_actor (changeID d1)
      in case clone d1 of
           None \<Rightarrow> (Inl TypeError, d1)
         | Some (cloneRoot, clonePresences) \<Rightarrow>
     (let context0 = ChangeContext_create (changeID d1) cloneRoot
                       (case clonePresences actor0 of Some p \<Rightarrow> p | None \<Rightarrow> []) None;
          context = replayLoop env ops context0;
          change = toChange context
      in case changeExecute env change UndoRedo (ctx_root context, clonePresences, heap d1) of
           (Inl err, cloneRoot', clonePresences', h') \<Rightarrow>
             (Inl err, d1\<lparr>clone := Some (cloneRoot', clonePresences'), heap := h'\<rparr>)
         | (Inr r, cloneRoot', clonePresences', h') \<Rightarrow>
     (let d2 = d1\<lparr>clone := Some (cloneRoot', clonePresences'), heap := h'\<rparr> in
      case changeExecute env change UndoRedo (root d2, presences d2, heap d2) of
        (Inl err, root', presences', h'') \<Rightarrow>
          (Inl err, d2\<lparr>root := root', presences := presences', heap := h''\<rparr>)
      | (Inr (opInfos, reverseOps0), root', presences', h'') \<Rightarrow>
     (let reverseOps = (case getReversePresence context of
                          None \<Rightarrow> reverseOps0
                        | Some rp \<Rightarrow> reverseOps0 @ [HistPresence rp]);
          d3 = d2\<lparr>root := root', presences := presences', heap := h''\<rparr>;
          d4 = (if length reverseOps > 0
                then (if isUndo then d3\<lparr>redoStack := redoStack d3 @ [reverseOps]\<rparr>
                      else d3\<lparr>undoStack := undoStack d3 @ [reverseOps]\<rparr>)
                else d3)
      in if change_presenceChange change = None \<and> length opInfos = 0 then (Inr (), d4)
         else
           (let d5 = d4\<lparr>localChanges := localChanges d4 @ [change],
                        changeID := getNextID context\<rparr>;
                actor = cid_actor (changeID d5)
            in (Inr (),
                d5\<lparr>published := published d5 @ [makeEvents UndoRedo change opInfos actor d5]\<rparr>))))))"

definition undo :: "Env \<Rightarrow> Document \<Rightarrow> (error + unit) \<times> Document" where
  "undo env d =
     (if isUpdating d then (Inl (YorkieError ErrRefused), d)
      else
        (case popStack (undoStack d) of
           (None, st) \<Rightarrow> (Inl (YorkieError ErrRefused), d\<lparr>undoStack := st\<rparr>)
         | (Some undoOps, st) \<Rightarrow> replay env True undoOps (d\<lparr>undoStack := st\<rparr>)))"

definition redo :: "Env \<Rightarrow> Document \<Rightarrow> (error + unit) \<times> Document" where
  "redo env d =
     (if isUpdating d then (Inl (YorkieError ErrRefused), d)
      else
        (case popStack (redoStack d) of
           (None, st) \<Rightarrow> (Inl (YorkieError ErrRefused), d\<lparr>redoStack := st\<rparr>)
         | (Some redoOps, st) \<Rightarrow> replay env False redoOps (d\<lparr>redoStack := st\<rparr>)))"

section \<open>Well-formed block lists\<close>

text \<open>
  The representation invariant of an \<^verbatim>\<open>RGATreeSplit\<close>: the list starts with the head
  node as the constructor made it; identifiers are unique; the pieces of one insertion
  (the nodes with the same \<open>createdAt\<close>) cover disjoint ranges of offsets; a piece that
  starts where a non-empty piece ends has that piece as \<open>insPrev\<close>; \<open>insPrev\<close> and
  \<open>insNext\<close> mirror each other and point to nodes of the list; and the \<open>insPrev\<close> of a
  node is an earlier piece of the same insertion that comes before the node.
\<close>

definition headNode :: RGATreeSplitNode where
  "headNode = node_create InitialRGATreeSplitNodeID None"

definition idsBefore :: "RGATreeSplitNodeID \<Rightarrow> RGATreeSplit \<Rightarrow> RGATreeSplitNodeID list" where
  "idsBefore k s = map nid (takeWhile (\<lambda>n. nid n \<noteq> k) s)"

definition disjointPieces :: "RGATreeSplit \<Rightarrow> bool" where
  "disjointPieces s =
     (\<forall>n\<in>set s. \<forall>m\<in>set s.
        createdAt (nid n) = createdAt (nid m) \<and> offset (nid n) < offset (nid m) \<longrightarrow>
        offset (nid n) + getContentLength n \<le> offset (nid m))"

definition adjacentLinked :: "RGATreeSplit \<Rightarrow> bool" where
  "adjacentLinked s =
     (\<forall>n\<in>set s. \<forall>m\<in>set s.
        createdAt (nid n) = createdAt (nid m) \<and>
        offset (nid n) + getContentLength n = offset (nid m) \<and> 0 < getContentLength n \<longrightarrow>
        insPrev m = Some (nid n))"

definition insPrevLinked :: "RGATreeSplit \<Rightarrow> bool" where
  "insPrevLinked s =
     (\<forall>m\<in>set s. case insPrev m of
        None \<Rightarrow> True
      | Some k \<Rightarrow> k \<in> set (idsBefore (nid m) s) \<and>
                  createdAt k = createdAt (nid m) \<and> offset k < offset (nid m) \<and>
                  (\<exists>n\<in>set s. nid n = k \<and> insNext n = Some (nid m)))"

definition insNextLinked :: "RGATreeSplit \<Rightarrow> bool" where
  "insNextLinked s =
     (\<forall>n\<in>set s. case insNext n of
        None \<Rightarrow> True
      | Some k \<Rightarrow> (\<exists>m\<in>set s. nid m = k \<and> insPrev m = Some (nid n)))"

definition wf_split :: "RGATreeSplit \<Rightarrow> bool" where
  "wf_split s =
     (s \<noteq> [] \<and> hd s = headNode \<and> distinct (map nid s) \<and>
      disjointPieces s \<and> adjacentLinked s \<and> insPrevLinked s \<and> insNextLinked s)"

text \<open>
  The list that \<^verbatim>\<open>splitNode\<close> leaves when it cuts \<open>node\<close> at \<open>j\<close>: the node keeps the
  left value and points to the new node, the new node takes over the \<open>insNext\<close> of the
  node, and the node that was the \<open>insNext\<close> points back to the new node.
\<close>

definition splitID :: "RGATreeSplitNode \<Rightarrow> nat \<Rightarrow> RGATreeSplitNodeID" where
  "splitID node j = \<lparr>createdAt = createdAt (nid node), offset = offset (nid node) + j\<rparr>"

definition splitRight :: "RGATreeSplitNode \<Rightarrow> nat \<Rightarrow> CRDTTextValue \<Rightarrow> RGATreeSplitNode" where
  "splitRight node j rightV =
     \<lparr>nid = splitID node j, val = Some rightV, removedAt = removedAt node,
      insPrev = Some (nid node), insNext = insNext node\<rparr>"

definition splitRelink ::
  "RGATreeSplitNode \<Rightarrow> nat \<Rightarrow> CRDTTextValue \<Rightarrow> RGATreeSplitNode \<Rightarrow> RGATreeSplitNode" where
  "splitRelink node j leftV n =
     (if nid n = nid node then n\<lparr>val := Some leftV, insNext := Some (splitID node j)\<rparr>
      else if insNext node = Some (nid n) then n\<lparr>insPrev := Some (splitID node j)\<rparr>
      else n)"

definition splitResult ::
  "RGATreeSplitNode \<Rightarrow> nat \<Rightarrow> CRDTTextValue \<Rightarrow> CRDTTextValue \<Rightarrow> RGATreeSplit \<Rightarrow> RGATreeSplit" where
  "splitResult node j leftV rightV s =
     insertAfter (nid node) (splitRight node j rightV) (map (splitRelink node j leftV) s)"

definition splitOK ::
  "RGATreeSplit \<Rightarrow> RGATreeSplitNode \<Rightarrow> nat \<Rightarrow> CRDTTextValue \<Rightarrow> CRDTTextValue \<Rightarrow> bool" where
  "splitOK s node j leftV rightV =
     (wf_split s \<and> node \<in> set s \<and> 0 < j \<and> j < getContentLength node \<and>
      length (content leftV) = j \<and> length (content rightV) = getContentLength node - j)"

text \<open>
  The block lists that the operations build: the list of the constructor, and what
  \<^verbatim>\<open>edit\<close> and \<^verbatim>\<open>setStyle\<close> leave (whether they return or raise) when called on such a
  list with any arguments and any heap, an \<^verbatim>\<open>edit\<close> that inserts a value having a
  ticket that no node of the list was created with; and what \<^verbatim>\<open>purge\<close> of a removed
  node leaves.
\<close>

inductive reachable :: "RGATreeSplit \<Rightarrow> bool" where
  reachable_create: "reachable RGATreeSplit_create"
| reachable_edit:
    "reachable s \<Longrightarrow> (v \<noteq> None \<longrightarrow> (\<forall>n\<in>set s. createdAt (nid n) \<noteq> t)) \<Longrightarrow>
     edit sz rng t v vv s h = (r, s', h') \<Longrightarrow> reachable s'"
| reachable_setStyle:
    "reachable (rgaTreeSplit text) \<Longrightarrow> setStyle sz rng attrs t vv text h = (r, text', h') \<Longrightarrow>
     reachable (rgaTreeSplit text')"
| reachable_purge:
    "reachable s \<Longrightarrow> n \<in> set s \<Longrightarrow> removedAt n \<noteq> None \<Longrightarrow> reachable (purge (nid n) s)"

text \<open>The list that \<^verbatim>\<open>purge\<close> leaves: the node is gone and its insertion neighbours are joined.\<close>

definition purgeRelink :: "RGATreeSplitNode \<Rightarrow> RGATreeSplitNode \<Rightarrow> RGATreeSplitNode" where
  "purgeRelink node n =
     (if insPrev node = Some (nid n) then n\<lparr>insNext := insNext node\<rparr>
      else if insNext node = Some (nid n) then n\<lparr>insPrev := insPrev node\<rparr>
      else n)"

definition purgeResult :: "RGATreeSplitNode \<Rightarrow> RGATreeSplit \<Rightarrow> RGATreeSplit" where
  "purgeResult node s = map (purgeRelink node) (filter (\<lambda>n. nid n \<noteq> nid node) s)"

text \<open>
  The clone that the loop of \<^verbatim>\<open>deepcopy\<close> has built when it has copied the nodes \<open>done\<close>:
  the \<open>insNext\<close> of a copied node is set once the node it points to is copied.
\<close>

definition restrictNext :: "RGATreeSplitNodeID set \<Rightarrow> RGATreeSplitNode \<Rightarrow> RGATreeSplitNode" where
  "restrictNext D n =
     n\<lparr>insNext := (case insNext n of None \<Rightarrow> None | Some q \<Rightarrow> if q \<in> D then Some q else None)\<rparr>"

text \<open>
  What \<^verbatim>\<open>deleteNodes\<close> does to the list: the nodes whose ids are in \<open>K\<close> get
  \<^verbatim>\<open>removedAt = editedAt\<close>; and the test of \<^verbatim>\<open>filterNodes\<close> on a candidate.
\<close>

definition tombstone :: "TimeTicket \<Rightarrow> RGATreeSplitNodeID set \<Rightarrow> RGATreeSplitNode \<Rightarrow> RGATreeSplitNode" where
  "tombstone t K n = (if nid n \<in> K then n\<lparr>removedAt := Some t\<rparr> else n)"

definition deletable :: "TimeTicket \<Rightarrow> VersionVector option \<Rightarrow> RGATreeSplitNode \<Rightarrow> bool" where
  "deletable t vv n = canDelete t (clientLamportAtChange vv (actorID (getCreatedAt n))) n"

section \<open>Example block lists\<close>

text \<open>
  Sizes, tickets, and the list after the local insertion of \<open>hello\<close> into the empty list.
\<close>

definition exSizes :: Sizes where
  "exSizes = \<lparr>TimeTicketSize = 24, rhtNodeDataSize = (\<lambda>n. \<lparr>data = 0, meta = 24\<rparr>)\<rparr>"

definition exTextTicket :: TimeTicket where
  "exTextTicket = \<lparr>lamport = 1, delimiter = 1, actorID = ''a''\<rparr>"

definition exNodeTicket :: TimeTicket where
  "exNodeTicket = \<lparr>lamport = 2, delimiter = 1, actorID = ''a''\<rparr>"

definition exPos0 :: RGATreeSplitPos where
  "exPos0 = \<lparr>pos_id = InitialRGATreeSplitNodeID, relativeOffset = 0\<rparr>"

definition exHello :: RGATreeSplit where
  "exHello =
     fst (snd (edit exSizes (exPos0, exPos0) exNodeTicket
                 (Some \<lparr>attributes = 0, content = ''hello''\<rparr>) None RGATreeSplit_create [[]]))"

section \<open>Sequences of context calls\<close>

text \<open>
  The methods of a \<^verbatim>\<open>ChangeContext\<close> that change it, as calls; a context in use is the
  result of a sequence of such calls on a context made by \<^verbatim>\<open>create\<close>.
\<close>

datatype ContextCall =
    Push Operation
  | RegisterGCPair GCPair
  | SetPresenceChange PresenceChange
  | SetReversePresence "string list" bool
  | IssueTimeTicket
  | Acc DataSize

fun applyCall :: "ChangeContext \<Rightarrow> ContextCall \<Rightarrow> ChangeContext" where
  "applyCall ctx (Push op) = push op ctx"
| "applyCall ctx (RegisterGCPair pair) = ctx_registerGCPair pair ctx"
| "applyCall ctx (SetPresenceChange pc) = setPresenceChange pc ctx"
| "applyCall ctx (SetReversePresence keys b) = setReversePresence keys b ctx"
| "applyCall ctx IssueTimeTicket = snd (issueTimeTicket ctx)"
| "applyCall ctx (Acc diff) = ctx_acc diff ctx"

definition runCalls :: "ContextCall list \<Rightarrow> ChangeContext \<Rightarrow> ChangeContext" where
  "runCalls calls ctx = foldl applyCall ctx calls"

section \<open>Example inputs\<close>

text \<open>
  A document of actor \<open>a\<close> whose root holds one text with the single node \<open>a\<close>, an
  environment whose validator accepts everything and whose executor reports nothing.
\<close>

definition exEnv :: Env where
  "exEnv = \<lparr>validateYorkieRuleset = (\<lambda>r h rules. True),
            changeExecute = (\<lambda>c src st. (Inr ([], []), st)),
            presenceSet = (\<lambda>v ctx. ctx)\<rparr>"

definition exSplit :: RGATreeSplit where
  "exSplit =
     [node_create InitialRGATreeSplitNodeID None,
      node_create \<lparr>createdAt = exNodeTicket, offset = 0\<rparr>
        (Some \<lparr>attributes = 0, content = ''a''\<rparr>)]"

definition exText :: CRDTText where
  "exText = \<lparr>rgaTreeSplit = exSplit, text_createdAt = exTextTicket, text_removedAt = None\<rparr>"

definition exRoot :: CRDTRoot where
  "exRoot =
     \<lparr>elementMap = [exTextTicket \<mapsto> TextElement exText],
      gcPairMap = Map.empty,
      docSize = \<lparr>live = \<lparr>data = 2, meta = 48\<rparr>, gc = zeroDataSize\<rparr>\<rparr>"

definition exChangeID :: ChangeID where
  "exChangeID = \<lparr>clientSeq = 2, serverSeq = 0, cid_lamport = 2, cid_actor = ''a'',
                 cid_versionVector = [''a'' \<mapsto> 2]\<rparr>"

definition exDoc :: Document where
  "exDoc =
     \<lparr>status = Attached, changeID = exChangeID,
      localChanges = [], maxSizeLimit = 0, schemaRules = [], root = exRoot, clone = None,
      presences = [''a'' \<mapsto> []], undoStack = [], redoStack = [], isUpdating = False,
      enableDevtools = False, published = [], heap = [[]]\<rparr>"

text \<open>
  The updater \<^verbatim>\<open>(root) => root.t.setStyle(0, 1, {bold: true})\<close>: the style is set on the
  text of the clone with a ticket issued by the context, the size is accounted for and the
  operation is pushed, as the text proxy does. \<open>styleThenThrow\<close> is the updater that
  raises after that.
\<close>

definition styleUpdater :: Updater where
  "styleUpdater ctx presence h =
     (case findByCreatedAt exTextTicket (ctx_root ctx) of
        Some (TextElement text) \<Rightarrow>
          (case indexRangeToPosRange 0 1 text of
             Inr rng \<Rightarrow>
               (case issueTimeTicket ctx of
                  (ticket, ctx1) \<Rightarrow>
                    (case setStyle exSizes rng [(''bold'', ''true'')] ticket None text h of
                       (Inr (pairs, diff, changes), text', h') \<Rightarrow>
                         (Inr (),
                          push (StyleOp \<lparr>parentCreatedAt = exTextTicket, executedAt = ticket,
                                         fromPos = fst rng, toPos = snd rng,
                                         op_attributes = Some [(''bold'', ''true'')]\<rparr>)
                            (ctx_acc diff
                               (ctx1\<lparr>ctx_root := (ctx_root ctx1)\<lparr>elementMap :=
                                   (elementMap (ctx_root ctx1))
                                     (exTextTicket \<mapsto> TextElement text')\<rparr>\<rparr>)),
                          presence, h')
                     | (Inl e, text', h') \<Rightarrow>
                         (Inl e,
                          ctx1\<lparr>ctx_root := (ctx_root ctx1)\<lparr>elementMap :=
                                  (elementMap (ctx_root ctx1))
                                    (exTextTicket \<mapsto> TextElement text')\<rparr>\<rparr>,
                          presence, h')))
           | Inl e \<Rightarrow> (Inl e, ctx, presence, h))
      | _ \<Rightarrow> (Inl TypeError, ctx, presence, h))"

definition styleThenThrow :: Updater where
  "styleThenThrow ctx presence h =
     (case styleUpdater ctx presence h of
        (Inr u, st) \<Rightarrow> (Inl (Thrown ''boom''), st)
      | (Inl e, st) \<Rightarrow> (Inl e, st))"

text \<open>The updater \<^verbatim>\<open>(root, p) => p.set({cursor: 2})\<close>, which changes the presence only.\<close>

definition presenceOnly :: Updater where
  "presenceOnly ctx presence h =
     (Inr (), setPresenceChange (Put [(''cursor'', ''2'')]) ctx, Some [(''cursor'', ''2'')], h)"

text \<open>
  The attributes of the nodes of a text of the authoritative root, as \<^verbatim>\<open>toJSON\<close> would
  read them.
\<close>

definition rootTextAttributes :: "TimeTicket \<Rightarrow> Document \<Rightarrow> (string \<times> string) list list" where
  "rootTextAttributes t d =
     (case findByCreatedAt t (root d) of
        Some (TextElement text) \<Rightarrow>
          map (\<lambda>n. case val n of None \<Rightarrow> [] | Some v \<Rightarrow> rht_toObject (getAttrs v (heap d)))
            (rgaTreeSplit text)
      | _ \<Rightarrow> [])"

definition exStyleOp :: StyleOperation where
  "exStyleOp =
     \<lparr>parentCreatedAt = exTextTicket,
      executedAt = \<lparr>lamport = 3, delimiter = 1, actorID = ''a''\<rparr>,
      fromPos = \<lparr>pos_id = InitialRGATreeSplitNodeID, relativeOffset = 0\<rparr>,
      toPos = \<lparr>pos_id = \<lparr>createdAt = exNodeTicket, offset = 0\<rparr>, relativeOffset = 1\<rparr>,
      op_attributes = Some [(''bold'', ''true'')]\<rparr>"

definition exPath :: "CRDTRoot \<Rightarrow> TimeTicket \<Rightarrow> string" where
  "exPath r t = ''$.t''"

section \<open>Properties of the block list\<close>

subsection \<open>Order of identifiers, lookups and the index round trip on well-formed lists\<close>

lemma ticket_compare_eq0: "ticket_compare a b = 0 \<longleftrightarrow> a = b"
  by (auto simp: ticket_compare_def)

lemma ticket_compare_self [simp]: "ticket_compare a a = 0"
  by (simp add: ticket_compare_eq0)

lemma ticket_compare_neg_pos: "ticket_compare a b < 0 \<longleftrightarrow> ticket_compare b a > 0"
  by (auto simp: ticket_compare_def)

lemma ticket_compare_trans:
  "ticket_compare a b \<le> 0 \<Longrightarrow> ticket_compare b c \<le> 0 \<Longrightarrow> ticket_compare a c \<le> 0"
  by (auto simp: ticket_compare_def split: if_splits)

lemma ticket_compare_antisym: "ticket_compare a b \<le> 0 \<Longrightarrow> ticket_compare b a \<le> 0 \<Longrightarrow> a = b"
  using ticket_compare_neg_pos [of a b] ticket_compare_eq0 [of a b] by linarith

lemma compareID_le_iff:
  "compareID a b \<le> 0 \<longleftrightarrow>
     ticket_compare (createdAt a) (createdAt b) < 0 \<or>
     (createdAt a = createdAt b \<and> offset a \<le> offset b)"
  using ticket_compare_eq0 [of "createdAt a" "createdAt b"]
  by (cases "ticket_compare (createdAt a) (createdAt b) = 0")
     (simp_all add: compareID_def Let_def, linarith)


lemma ticket_compare_strict_trans:
  assumes "ticket_compare a b < 0" and "ticket_compare b c < 0"
  shows "ticket_compare a c < 0"
proof -
  have le: "ticket_compare a c \<le> 0" using ticket_compare_trans [of a b c] assms by simp
  have "ticket_compare a c \<noteq> 0"
  proof
    assume "ticket_compare a c = 0"
    then have "a = c" by (simp add: ticket_compare_eq0)
    then show False using assms ticket_compare_neg_pos [of a b] by simp
  qed
  then show ?thesis using le by simp
qed

lemma compareID_trans:
  assumes "compareID a b \<le> 0" and "compareID b c \<le> 0"
  shows "compareID a c \<le> 0"
proof -
  have ab: "ticket_compare (createdAt a) (createdAt b) < 0 \<or>
            (createdAt a = createdAt b \<and> offset a \<le> offset b)"
    using assms(1) by (simp add: compareID_le_iff)
  have bc: "ticket_compare (createdAt b) (createdAt c) < 0 \<or>
            (createdAt b = createdAt c \<and> offset b \<le> offset c)"
    using assms(2) by (simp add: compareID_le_iff)
  have "ticket_compare (createdAt a) (createdAt c) < 0 \<or>
        (createdAt a = createdAt c \<and> offset a \<le> offset c)"
    using ab bc ticket_compare_strict_trans [of "createdAt a" "createdAt b" "createdAt c"]
    by auto
  then show ?thesis by (simp add: compareID_le_iff)
qed

lemma compareID_total: "compareID a b \<le> 0 \<or> compareID b a < 0"
  using ticket_compare_neg_pos [of "createdAt b" "createdAt a"]
    ticket_compare_eq0 [of "createdAt a" "createdAt b"]
  by (cases "ticket_compare (createdAt a) (createdAt b) = 0")
     (auto simp: compareID_def Let_def)

lemma compareID_less_le: "compareID a b < 0 \<Longrightarrow> compareID a b \<le> 0"
  by simp

lemma floorEntry_None:
  "floorEntry k s = None \<Longrightarrow> \<forall>m\<in>set s. \<not> compareID (nid m) k \<le> 0"
  by (induction s) (auto split: option.splits if_splits)

lemma floorEntry_Some:
  "floorEntry k s = Some e \<Longrightarrow>
     e \<in> set s \<and> compareID (nid e) k \<le> 0 \<and>
     (\<forall>m\<in>set s. compareID (nid m) k \<le> 0 \<longrightarrow> compareID (nid m) (nid e) \<le> 0)"
proof (induction s arbitrary: e)
  case Nil
  then show ?case by simp
next
  case (Cons n ns)
  show ?case
  proof (cases "floorEntry k ns")
    case None
    have nn: "\<forall>m\<in>set ns. \<not> compareID (nid m) k \<le> 0"
      using floorEntry_None [OF None] .
    from None Cons.prems have "compareID (nid n) k \<le> 0" "e = n"
      by (auto split: if_splits)
    then show ?thesis using nn
      by (auto simp: compareID_le_iff)
  next
    case (Some m)
    note ih = Cons.IH [OF Some]
    show ?thesis
    proof (cases "compareID (nid n) k \<le> 0 \<and> compareID (nid m) (nid n) < 0")
      case True
      then have e: "e = n" using Some Cons.prems by simp
      have "\<forall>x\<in>set ns. compareID (nid x) k \<le> 0 \<longrightarrow> compareID (nid x) (nid n) \<le> 0"
        using ih True compareID_trans by (metis less_le_not_le)
      then show ?thesis using e True by (auto simp: compareID_le_iff)
    next
      case False
      then have e: "e = m" using Some Cons.prems by auto
      have "compareID (nid n) k \<le> 0 \<longrightarrow> compareID (nid n) (nid m) \<le> 0"
        using False compareID_total [of "nid n" "nid m"] by auto
      then show ?thesis using e ih by auto
    qed
  qed
qed



lemma findFloorNode_Some:
  assumes "findFloorNode i s = Some e"
  shows "e \<in> set s \<and> createdAt (nid e) = createdAt i \<and> offset (nid e) \<le> offset i \<and>
         (\<forall>m\<in>set s. createdAt (nid m) = createdAt i \<and> offset (nid m) \<le> offset i \<longrightarrow>
                     offset (nid m) \<le> offset (nid e))"
proof -
  from assms have fe: "floorEntry i s = Some e" and sc: "createdAt (nid e) = createdAt i"
    by (auto simp: findFloorNode_def equalsID_def hasSameCreatedAt_def ticket_compare_eq0
        split: option.splits if_splits)
  note f = floorEntry_Some [OF fe]
  have "offset (nid e) \<le> offset i"
    using f sc by (simp add: compareID_le_iff ticket_compare_eq0)
  moreover have "\<forall>m\<in>set s. createdAt (nid m) = createdAt i \<and> offset (nid m) \<le> offset i \<longrightarrow>
                     offset (nid m) \<le> offset (nid e)"
  proof (intro ballI impI)
    fix m assume m: "m \<in> set s" "createdAt (nid m) = createdAt i \<and> offset (nid m) \<le> offset i"
    then have "compareID (nid m) i \<le> 0" by (simp add: compareID_le_iff)
    with f m have "compareID (nid m) (nid e) \<le> 0" by blast
    then show "offset (nid m) \<le> offset (nid e)"
      using m sc by (simp add: compareID_le_iff ticket_compare_eq0)
  qed
  ultimately show ?thesis using f sc by blast
qed

lemma findFloorNode_exists:
  assumes "n \<in> set s" "createdAt (nid n) = createdAt i" "offset (nid n) \<le> offset i"
  shows "\<exists>e. findFloorNode i s = Some e"
proof -
  have ni: "compareID (nid n) i \<le> 0" using assms by (simp add: compareID_le_iff)
  then obtain e where fe: "floorEntry i s = Some e"
    using floorEntry_None [of i s] assms(1) by (cases "floorEntry i s") auto
  note f = floorEntry_Some [OF fe]
  have ne: "compareID (nid n) (nid e) \<le> 0" using f ni assms(1) by blast
  have "createdAt (nid e) = createdAt i"
  proof -
    have a: "ticket_compare (createdAt (nid e)) (createdAt i) \<le> 0"
      using f by (auto simp: compareID_le_iff ticket_compare_eq0)
    have b: "ticket_compare (createdAt i) (createdAt (nid e)) \<le> 0"
      using ne assms(2) by (auto simp: compareID_le_iff ticket_compare_eq0)
    show ?thesis using ticket_compare_antisym [OF a b] .
  qed
  then show ?thesis using fe
    by (simp add: findFloorNode_def hasSameCreatedAt_def ticket_compare_eq0)
qed

lemma node_eq_by_id:
  "distinct (map nid s) \<Longrightarrow> a \<in> set s \<Longrightarrow> b \<in> set s \<Longrightarrow> nid a = nid b \<Longrightarrow> a = b"
  by (meson distinct_map inj_onD)

lemma id_eqI: "createdAt a = createdAt b \<Longrightarrow> offset a = offset b \<Longrightarrow> (a :: RGATreeSplitNodeID) = b"
  by simp

lemma findFloorNode_exact:
  assumes d: "distinct (map nid s)" and n: "n \<in> set s"
  shows "findFloorNode (nid n) s = Some n"
proof -
  obtain e where e: "findFloorNode (nid n) s = Some e"
    using findFloorNode_exists [OF n] by blast
  note f = findFloorNode_Some [OF e]
  have "offset (nid n) \<le> offset (nid e)" using f n by blast
  then have "nid e = nid n" using f by (intro id_eqI) auto
  then show ?thesis using e node_eq_by_id [OF d _ n] f by blast
qed

lemma lookupNode_Some:
  "distinct (map nid s) \<Longrightarrow> n \<in> set s \<Longrightarrow> lookupNode (nid n) s = Some n"
  unfolding lookupNode_def
  by (induction s) (auto simp: image_iff)

lemma lookupNode_SomeD: "lookupNode k s = Some n \<Longrightarrow> n \<in> set s \<and> nid n = k"
  unfolding lookupNode_def
  by (induction s) (auto split: if_splits)

lemma lookupNode_None: "lookupNode k s = None \<longleftrightarrow> k \<notin> nid ` set s"
  unfolding lookupNode_def
  by (induction s) auto

text \<open>the covering lemma\<close>

lemma findFloorNodePreferToLeft_cover:
  assumes wf: "wf_split s" and n: "n \<in> set s" and j: "0 < j" "j \<le> getContentLength n"
  shows "findFloorNodePreferToLeft \<lparr>createdAt = createdAt (nid n), offset = offset (nid n) + j\<rparr> s = Inr n"
proof -
  let ?i = "\<lparr>createdAt = createdAt (nid n), offset = offset (nid n) + j\<rparr>"
  from wf have d: "distinct (map nid s)" and dp: "disjointPieces s" and al: "adjacentLinked s"
    by (simp_all add: wf_split_def)
  obtain e where e: "findFloorNode ?i s = Some e"
    using findFloorNode_exists [OF n, of ?i] by auto
  note f = findFloorNode_Some [OF e]
  have ge: "offset (nid n) \<le> offset (nid e)" using f n by auto
  show ?thesis
  proof (cases "offset (nid e) = offset (nid n)")
    case True
    then have "nid e = nid n" using f by (intro id_eqI) auto
    then have "e = n" using node_eq_by_id [OF d _ n] f by blast
    then show ?thesis using e j by (simp add: findFloorNodePreferToLeft_def)
  next
    case False
    then have lt: "offset (nid n) < offset (nid e)" using ge by simp
    have "offset (nid n) + getContentLength n \<le> offset (nid e)"
      using dp n f lt unfolding disjointPieces_def by auto
    then have eq: "offset (nid e) = offset (nid n) + j" "j = getContentLength n"
      using f j by auto
    have "insPrev e = Some (nid n)"
      using al n f eq j unfolding adjacentLinked_def by auto
    then show ?thesis
      using e eq j lookupNode_Some [OF d n] by (simp add: findFloorNodePreferToLeft_def)
  qed
qed

lemma splay_find_Inr:
  "splay_find i s = Inr (n, j) \<Longrightarrow>
     n \<in> set s \<and> j \<le> getLength n \<and> (j = 0 \<longrightarrow> n = hd s \<and> i = 0) \<and>
     (distinct (map nid s) \<longrightarrow> indexOf (nid n) s + j = i)"
proof (induction s arbitrary: i)
  case Nil
  then show ?case by simp
next
  case (Cons a s)
  show ?case
  proof (cases "i \<le> getLength a")
    case True
    then show ?thesis using Cons.prems by auto
  next
    case False
    then have r: "splay_find (i - getLength a) s = Inr (n, j)" using Cons.prems by simp
    note ih = Cons.IH [OF r]
    have "j \<noteq> 0" using ih False by auto
    moreover have "distinct (map nid (a # s)) \<longrightarrow> nid a \<noteq> nid n" using ih by auto
    ultimately show ?thesis using ih False by auto
  qed
qed

lemma splay_find_exists:
  "s \<noteq> [] \<Longrightarrow> i \<le> split_length s \<Longrightarrow> \<exists>n j. splay_find i s = Inr (n, j)"
  unfolding split_length_def
proof (induction s arbitrary: i)
  case Nil
  then show ?case by simp
next
  case (Cons a s)
  show ?case
  proof (cases "i \<le> getLength a")
    case True
    then show ?thesis by simp
  next
    case False
    then have "s \<noteq> []" using Cons.prems by auto
    then show ?thesis using Cons False by auto
  qed
qed

lemma wf_head: "wf_split s \<Longrightarrow> hd s \<in> set s \<and> hd s = headNode"
  by (metis wf_split_def hd_in_set)

lemma getAbsoluteID_zero: "getAbsoluteID \<lparr>pos_id = k, relativeOffset = 0\<rparr> = k"
  by (simp add: getAbsoluteID_def)

lemma indexOf_hd: "s \<noteq> [] \<Longrightarrow> indexOf (nid (hd s)) s = 0"
  by (cases s) auto

theorem roundtrip_wf:
  assumes wf: "wf_split s" and i: "i \<le> split_length s"
  shows "\<exists>p. indexToPos i s = Inr p \<and> posToIndex p True s = Inr (int i)"
proof -
  from wf have ne: "s \<noteq> []" and d: "distinct (map nid s)" by (simp_all add: wf_split_def)
  obtain n j where fi: "splay_find i s = Inr (n, j)"
    using splay_find_exists [OF ne i] by blast
  note sf = splay_find_Inr [OF fi]
  have p: "indexToPos i s = Inr \<lparr>pos_id = nid n, relativeOffset = j\<rparr>"
    using fi by (simp add: indexToPos_def)
  have "posToIndex \<lparr>pos_id = nid n, relativeOffset = j\<rparr> True s = Inr (int i)"
  proof (cases "j = 0")
    case True
    then have h: "n = hd s" "i = 0" using sf by auto
    have hn: "n = headNode" using h wf_head [OF wf] by simp
    have "findFloorNode (nid n) s = Some n"
      using findFloorNode_exact [OF d] sf by blast
    then have "findFloorNodePreferToLeft (nid n) s = Inr n"
      using hn by (simp add: findFloorNodePreferToLeft_def headNode_def node_create_def
          InitialRGATreeSplitNodeID_def)
    then show ?thesis
      using True h indexOf_hd [OF ne] hn
      by (simp add: posToIndex_def getAbsoluteID_zero Let_def isRemoved_def headNode_def
          node_create_def)
  next
    case False
    then have j: "0 < j" by simp
    have live: "removedAt n = None" "j \<le> getContentLength n"
      using sf j by (auto simp: getLength_def split: if_splits)
    have "findFloorNodePreferToLeft \<lparr>createdAt = createdAt (nid n), offset = offset (nid n) + j\<rparr> s = Inr n"
      using findFloorNodePreferToLeft_cover [OF wf _ j live(2)] sf by blast
    then show ?thesis
      using sf d live by (auto simp: posToIndex_def getAbsoluteID_def Let_def isRemoved_def)
  qed
  with p show ?thesis by blast
qed


section \<open>list operations\<close>

lemma map_nid_updateNode [simp]:
  "(\<And>n. nid (f n) = nid n) \<Longrightarrow> map nid (updateNode k f s) = map nid s"
  by (induction s) (auto simp: updateNode_def)

lemma set_insertAfter:
  "k \<in> nid ` set s \<Longrightarrow> set (insertAfter k new s) = insert new (set s)"
  by (induction s) auto

lemma insertAfter_notin: "k \<notin> nid ` set s \<Longrightarrow> insertAfter k new s = s"
  by (induction s) auto

lemma insertAfter_decomp:
  "k \<in> nid ` set s \<Longrightarrow>
     \<exists>xs n ys. s = xs @ n # ys \<and> nid n = k \<and> k \<notin> nid ` set xs \<and>
                insertAfter k new s = xs @ n # new # ys"
proof (induction s)
  case Nil
  then show ?case by simp
next
  case (Cons a s)
  show ?case
  proof (cases "nid a = k")
    case True
    then show ?thesis by (intro exI [of _ "[]"]) auto
  next
    case False
    then obtain xs n ys where "s = xs @ n # ys" "nid n = k" "k \<notin> nid ` set xs"
      "insertAfter k new s = xs @ n # new # ys"
      using Cons by auto
    then show ?thesis using False
      by (intro exI [of _ "a # xs"]) auto
  qed
qed

lemma map_insertAfter:
  "(\<And>n. nid (f n) = nid n) \<Longrightarrow> map f (insertAfter k new s) = insertAfter k (f new) (map f s)"
  by (induction s) auto

lemma hd_insertAfter [simp]: "hd (insertAfter k new s) = hd s"
  by (cases s) auto

lemma insertAfter_Nil_iff [simp]: "insertAfter k new s = [] \<longleftrightarrow> s = []"
  by (cases s) auto

lemma set_insertAfter_subset: "set (insertAfter k new s) \<subseteq> insert new (set s)"
  by (induction s) auto

lemma distinct_insertAfter:
  "distinct (map nid s) \<Longrightarrow> nid new \<notin> nid ` set s \<Longrightarrow> distinct (map nid (insertAfter k new s))"
proof (induction s)
  case Nil
  then show ?case by simp
next
  case (Cons a s)
  have "nid a \<notin> nid ` set (insertAfter k new s)"
    using Cons.prems set_insertAfter_subset [of k new s] by auto
  then show ?case using Cons by auto
qed

lemma idsBefore_map [simp]:
  "(\<And>n. nid (f n) = nid n) \<Longrightarrow> idsBefore b (map f s) = idsBefore b s"
  by (induction s) (auto simp: idsBefore_def)

lemma idsBefore_insertAfter:
  "nid new \<noteq> b \<Longrightarrow> set (idsBefore b s) \<subseteq> set (idsBefore b (insertAfter k new s))"
  by (induction s) (auto simp: idsBefore_def)

lemma idsBefore_insertAfter_new:
  "k \<in> nid ` set s \<Longrightarrow> nid new \<notin> nid ` set s \<Longrightarrow>
     k \<in> set (idsBefore (nid new) (insertAfter k new s))"
  by (induction s) (auto simp: idsBefore_def)

lemma idsBefore_insertAfter_behind:
  "k \<in> set (idsBefore b s) \<Longrightarrow> nid new \<noteq> b \<Longrightarrow>
     nid new \<in> set (idsBefore b (insertAfter k new s))"
  by (induction s) (auto simp: idsBefore_def split: if_splits)

lemma idsBefore_subset: "set (idsBefore b s) \<subseteq> nid ` set s"
  by (auto simp: idsBefore_def dest: set_takeWhileD)

lemma idsBefore_irrefl: "b \<notin> set (idsBefore b s)"
  by (auto simp: idsBefore_def dest: set_takeWhileD)

subsection \<open>Splitting a node keeps the list well-formed\<close>

lemma splitRelink_nid [simp]: "nid (splitRelink node j lv n) = nid n"
  by (simp add: splitRelink_def)

lemma splitRelink_removedAt [simp]: "removedAt (splitRelink node j lv n) = removedAt n"
  by (simp add: splitRelink_def)

lemma splitRight_nid [simp]: "nid (splitRight node j rv) = splitID node j"
  by (simp add: splitRight_def)

lemma splitID_sel [simp]:
  "createdAt (splitID node j) = createdAt (nid node)" "offset (splitID node j) = offset (nid node) + j"
  by (simp_all add: splitID_def)

lemma splitOK_D:
  assumes "splitOK s node j lv rv"
  shows "wf_split s" "node \<in> set s" "0 < j" "j < getContentLength node"
    "length (content lv) = j" "length (content rv) = getContentLength node - j"
    "distinct (map nid s)" "disjointPieces s" "adjacentLinked s" "insPrevLinked s" "insNextLinked s"
    "s \<noteq> []" "hd s = headNode"
  using assms by (simp_all add: splitOK_def wf_split_def)

lemma splitOK_fresh:
  assumes ok: "splitOK s node j lv rv"
  shows "splitID node j \<notin> nid ` set s"
proof
  assume "splitID node j \<in> nid ` set s"
  then obtain m where m: "m \<in> set s" "nid m = splitID node j" by auto
  note o = splitOK_D [OF ok]
  have "offset (nid node) + getContentLength node \<le> offset (nid m)"
    using o(8) [unfolded disjointPieces_def, rule_format, OF o(2) m(1)] m o(3) by simp
  then show False using m o(4) by simp
qed

lemma splitOK_set:
  assumes ok: "splitOK s node j lv rv"
  shows "set (splitResult node j lv rv s) =
           insert (splitRight node j rv) (splitRelink node j lv ` set s)"
  unfolding splitResult_def
  using splitOK_D(2) [OF ok] by (subst set_insertAfter) (auto simp: image_iff)

lemma splitOK_distinct:
  assumes ok: "splitOK s node j lv rv"
  shows "distinct (map nid (splitResult node j lv rv s))"
  unfolding splitResult_def
  using splitOK_D(7) [OF ok] splitOK_fresh [OF ok]
  by (intro distinct_insertAfter) (auto simp: o_def)

lemma splitOK_not_head:
  assumes ok: "splitOK s node j lv rv"
  shows "splitRelink node j lv headNode = headNode"
proof -
  note o = splitOK_D [OF ok]
  have hs: "headNode \<in> set s" using o(12,13) hd_in_set by metis
  have 1: "nid headNode \<noteq> nid node"
  proof
    assume "nid headNode = nid node"
    then have "headNode = node" using node_eq_by_id [OF o(7) hs o(2)] by simp
    then have "getContentLength node = 0"
      by (auto simp: headNode_def node_create_def getContentLength_def)
    then show False using o(3,4) by simp
  qed
  have 2: "insNext node \<noteq> Some (nid headNode)"
  proof
    assume a: "insNext node = Some (nid headNode)"
    then obtain m where m: "m \<in> set s" "nid m = nid headNode" "insPrev m = Some (nid node)"
      using o(11) o(2) unfolding insNextLinked_def by fastforce
    then have "m = headNode" using node_eq_by_id [OF o(7) _ hs] by simp
    then show False using m by (simp add: headNode_def node_create_def)
  qed
  show ?thesis using 1 2 by (simp add: splitRelink_def)
qed

lemma splitOK_hd:
  assumes ok: "splitOK s node j lv rv"
  shows "splitResult node j lv rv s \<noteq> [] \<and> hd (splitResult node j lv rv s) = headNode"
  using splitOK_D(12,13) [OF ok] splitOK_not_head [OF ok]
  by (simp add: splitResult_def hd_map)

lemma splitRelink_clen:
  assumes ok: "splitOK s node j lv rv" and n: "n \<in> set s"
  shows "getContentLength (splitRelink node j lv n) = (if n = node then j else getContentLength n)"
proof -
  note o = splitOK_D [OF ok]
  have "nid n = nid node \<longleftrightarrow> n = node" using node_eq_by_id [OF o(7) n o(2)] by auto
  then show ?thesis using o(5) by (auto simp: splitRelink_def getContentLength_def)
qed

lemma splitRight_clen:
  assumes ok: "splitOK s node j lv rv"
  shows "getContentLength (splitRight node j rv) = getContentLength node - j"
  using splitOK_D(6) [OF ok] by (simp add: splitRight_def getContentLength_def)

lemma splitOK_disjoint:
  assumes ok: "splitOK s node j lv rv"
  shows "disjointPieces (splitResult node j lv rv s)"
  unfolding disjointPieces_def splitOK_set [OF ok]
proof (intro ballI impI)
  fix x y
  assume x: "x \<in> insert (splitRight node j rv) (splitRelink node j lv ` set s)"
    and y: "y \<in> insert (splitRight node j rv) (splitRelink node j lv ` set s)"
    and c: "createdAt (nid x) = createdAt (nid y) \<and> offset (nid x) < offset (nid y)"
  note o = splitOK_D [OF ok]
  note dp = o(8) [unfolded disjointPieces_def, rule_format]
  consider (nn) "x = splitRight node j rv" "y = splitRight node j rv"
    | (no) b where "x = splitRight node j rv" "y = splitRelink node j lv b" "b \<in> set s"
    | (on) a where "x = splitRelink node j lv a" "a \<in> set s" "y = splitRight node j rv"
    | (oo) a b where "x = splitRelink node j lv a" "a \<in> set s" "y = splitRelink node j lv b" "b \<in> set s"
    using x y by auto
  then show "offset (nid x) + getContentLength x \<le> offset (nid y)"
  proof cases
    case nn
    then show ?thesis using c by simp
  next
    case no
    have "offset (nid node) + getContentLength node \<le> offset (nid b)"
      using dp [OF o(2) no(3)] c no by simp
    then show ?thesis using no splitRight_clen [OF ok] o(4) by simp
  next
    case on
    show ?thesis
    proof (cases "a = node")
      case True
      then show ?thesis using on splitRelink_clen [OF ok on(2)] by simp
    next
      case False
      have ne: "offset (nid a) \<noteq> offset (nid node)"
        using False node_eq_by_id [OF o(7) on(2) o(2)] c on by (auto intro: id_eqI)
      show ?thesis
      proof (cases "offset (nid a) < offset (nid node)")
        case True
        then have "offset (nid a) + getContentLength a \<le> offset (nid node)"
          using dp [OF on(2) o(2)] c on by simp
        then show ?thesis using on splitRelink_clen [OF ok on(2)] False by simp
      next
        case F2: False
        then have "offset (nid node) + getContentLength node \<le> offset (nid a)"
          using dp [OF o(2) on(2)] c on ne by simp
        then show ?thesis using c on o(4) by simp
      qed
    qed
  next
    case oo
    have "offset (nid a) + getContentLength a \<le> offset (nid b)"
      using dp [OF oo(2) oo(4)] c oo by simp
    moreover have "getContentLength (splitRelink node j lv a) \<le> getContentLength a"
      using splitRelink_clen [OF ok oo(2)] o(4) by auto
    ultimately show ?thesis using oo by simp
  qed
qed


lemma splitOK_node_id:
  assumes ok: "splitOK s node j lv rv" and n: "n \<in> set s"
  shows "nid n = nid node \<longleftrightarrow> n = node"
  using node_eq_by_id [OF splitOK_D(7) [OF ok] n splitOK_D(2) [OF ok]] by auto

lemma splitOK_insNext_node:
  assumes ok: "splitOK s node j lv rv" and q: "insNext node = Some q"
  shows "\<exists>m\<in>set s. nid m = q \<and> insPrev m = Some (nid node) \<and> q \<noteq> nid node"
proof -
  note o = splitOK_D [OF ok]
  obtain m where m: "m \<in> set s" "nid m = q" "insPrev m = Some (nid node)"
    using o(11) [unfolded insNextLinked_def, rule_format, OF o(2)] q by auto
  have "nid node \<in> set (idsBefore (nid m) s)"
    using o(10) [unfolded insPrevLinked_def, rule_format, OF m(1)] m(3) by simp
  then have "q \<noteq> nid node" using idsBefore_irrefl [of "nid m" s] m(2) by auto
  then show ?thesis using m by blast
qed

lemma splitOK_insPrev_node:
  assumes ok: "splitOK s node j lv rv" and b: "b \<in> set s" "insPrev b = Some (nid node)"
  shows "insNext node = Some (nid b)"
proof -
  note o = splitOK_D [OF ok]
  obtain n where n: "n \<in> set s" "nid n = nid node" "insNext n = Some (nid b)"
    using o(10) [unfolded insPrevLinked_def, rule_format, OF b(1)] b(2) by auto
  then show ?thesis using splitOK_node_id [OF ok n(1)] by simp
qed

lemma splitRelink_insPrev:
  "insPrev (splitRelink node j lv n) =
     (if nid n \<noteq> nid node \<and> insNext node = Some (nid n) then Some (splitID node j) else insPrev n)"
  by (simp add: splitRelink_def)

lemma splitRelink_insNext:
  "insNext (splitRelink node j lv n) = (if nid n = nid node then Some (splitID node j) else insNext n)"
  by (simp add: splitRelink_def)

lemma splitRight_links [simp]:
  "insPrev (splitRight node j rv) = Some (nid node)"
  "insNext (splitRight node j rv) = insNext node"
  by (simp_all add: splitRight_def)

lemma splitOK_adjacent:
  assumes ok: "splitOK s node j lv rv"
  shows "adjacentLinked (splitResult node j lv rv s)"
  unfolding adjacentLinked_def splitOK_set [OF ok]
proof (intro ballI impI)
  fix x y
  assume x: "x \<in> insert (splitRight node j rv) (splitRelink node j lv ` set s)"
    and y: "y \<in> insert (splitRight node j rv) (splitRelink node j lv ` set s)"
    and c: "createdAt (nid x) = createdAt (nid y) \<and>
            offset (nid x) + getContentLength x = offset (nid y) \<and> 0 < getContentLength x"
  note o = splitOK_D [OF ok]
  note dp = o(8) [unfolded disjointPieces_def, rule_format]
  note al = o(9) [unfolded adjacentLinked_def, rule_format]
  consider (nn) "x = splitRight node j rv" "y = splitRight node j rv"
    | (no) b where "x = splitRight node j rv" "y = splitRelink node j lv b" "b \<in> set s"
    | (on) a where "x = splitRelink node j lv a" "a \<in> set s" "y = splitRight node j rv"
    | (oo) a b where "x = splitRelink node j lv a" "a \<in> set s" "y = splitRelink node j lv b" "b \<in> set s"
    using x y by auto
  then show "insPrev y = Some (nid x)"
  proof cases
    case nn
    then show ?thesis using c by simp
  next
    case no
    have e: "offset (nid node) + getContentLength node = offset (nid b)"
      using c no splitRight_clen [OF ok] o(4) by simp
    have "insPrev b = Some (nid node)"
      using al [OF o(2) no(3)] c no e o(3,4) by simp
    then have "insNext node = Some (nid b)" using splitOK_insPrev_node [OF ok no(3)] by simp
    moreover have "nid b \<noteq> nid node" using e o(3,4) by auto
    ultimately show ?thesis using no by (simp add: splitRelink_insPrev)
  next
    case on
    have "a = node"
    proof (rule ccontr)
      assume an: "a \<noteq> node"
      then have cl: "getContentLength (splitRelink node j lv a) = getContentLength a"
        using splitRelink_clen [OF ok on(2)] by simp
      have e: "offset (nid a) + getContentLength a = offset (nid node) + j"
        using c on cl by simp
      have ne: "offset (nid a) \<noteq> offset (nid node)"
        using an node_eq_by_id [OF o(7) on(2) o(2)] c on by (auto intro: id_eqI)
      show False
      proof (cases "offset (nid a) < offset (nid node)")
        case True
        then have "offset (nid a) + getContentLength a \<le> offset (nid node)"
          using dp [OF on(2) o(2)] c on by simp
        then show False using e o(3) by simp
      next
        case False
        then have "offset (nid node) + getContentLength node \<le> offset (nid a)"
          using dp [OF o(2) on(2)] c on ne by simp
        then show False using e o(4) by simp
      qed
    qed
    then show ?thesis using on by simp
  next
    case oo
    show ?thesis
    proof (cases "a = node")
      case True
      then have "offset (nid b) = offset (nid node) + j" "createdAt (nid b) = createdAt (nid node)"
        using c oo splitRelink_clen [OF ok oo(2)] by auto
      then have "nid b = splitID node j" by (intro id_eqI) auto
      then have False using splitOK_fresh [OF ok] oo(4) by (metis imageI)
      then show ?thesis ..
    next
      case False
      then have cl: "getContentLength (splitRelink node j lv a) = getContentLength a"
        using splitRelink_clen [OF ok oo(2)] by simp
      have ip: "insPrev b = Some (nid a)"
        using al [OF oo(2) oo(4)] c oo cl by simp
      have "\<not> (nid b \<noteq> nid node \<and> insNext node = Some (nid b))"
      proof
        assume "nid b \<noteq> nid node \<and> insNext node = Some (nid b)"
        then obtain m where m: "m \<in> set s" "nid m = nid b" "insPrev m = Some (nid node)"
          using splitOK_insNext_node [OF ok] by blast
        then have "m = b" using node_eq_by_id [OF o(7) m(1) oo(4)] by simp
        then have "nid a = nid node" using m ip by simp
        then show False using False splitOK_node_id [OF ok oo(2)] by simp
      qed
      then show ?thesis using oo ip by (auto simp: splitRelink_insPrev)
    qed
  qed
qed

lemma splitOK_idsBefore_old:
  assumes ok: "splitOK s node j lv rv" and b: "b \<in> set s"
  shows "set (idsBefore (nid b) s) \<subseteq> set (idsBefore (nid b) (splitResult node j lv rv s))"
proof -
  have "splitID node j \<noteq> nid b" using splitOK_fresh [OF ok] b by auto
  then show ?thesis
    unfolding splitResult_def
    using idsBefore_insertAfter [of "splitRight node j rv" "nid b" "map (splitRelink node j lv) s" "nid node"]
    by simp
qed

lemma splitOK_insPrevLinked:
  assumes ok: "splitOK s node j lv rv"
  shows "insPrevLinked (splitResult node j lv rv s)"
  unfolding insPrevLinked_def
proof (intro ballI)
  fix m assume "m \<in> set (splitResult node j lv rv s)"
  then have m: "m \<in> insert (splitRight node j rv) (splitRelink node j lv ` set s)"
    using splitOK_set [OF ok] by simp
  note o = splitOK_D [OF ok]
  let ?s' = "splitResult node j lv rv s"
  note st = splitOK_set [OF ok]
  consider (new) "m = splitRight node j rv" | (old) b where "m = splitRelink node j lv b" "b \<in> set s"
    using m by auto
  then show "case insPrev m of None \<Rightarrow> True
             | Some k \<Rightarrow> k \<in> set (idsBefore (nid m) ?s') \<and>
                 createdAt k = createdAt (nid m) \<and> offset k < offset (nid m) \<and>
                 (\<exists>n\<in>set ?s'. nid n = k \<and> insNext n = Some (nid m))"
  proof cases
    case new
    have 1: "nid node \<in> set (idsBefore (splitID node j) ?s')"
      unfolding splitResult_def
      using idsBefore_insertAfter_new [of "nid node" "map (splitRelink node j lv) s" "splitRight node j rv"]
        o(2) splitOK_fresh [OF ok]
      by (auto simp: image_iff)
    have "splitRelink node j lv node \<in> set ?s'"
      unfolding st using o(2) by simp
    then have 2: "\<exists>n\<in>set ?s'. nid n = nid node \<and> insNext n = Some (splitID node j)"
      by (rule rev_bexI) (simp add: splitRelink_insNext)
    show ?thesis using new 1 2 o(3) by simp
  next
    case old
    show ?thesis
    proof (cases "nid b \<noteq> nid node \<and> insNext node = Some (nid b)")
      case True
      then obtain b' where b': "b' \<in> set s" "nid b' = nid b" "insPrev b' = Some (nid node)"
        using splitOK_insNext_node [OF ok] by blast
      then have bb: "b' = b" using node_eq_by_id [OF o(7) b'(1) old(2)] by simp
      then have ob: "nid node \<in> set (idsBefore (nid b) s)"
          "createdAt (nid node) = createdAt (nid b)" "offset (nid node) < offset (nid b)"
        using o(10) [unfolded insPrevLinked_def, rule_format, OF old(2)] b' by simp_all
      have "offset (nid node) + getContentLength node \<le> offset (nid b)"
        using o(8) [unfolded disjointPieces_def, rule_format, OF o(2) old(2)] ob by simp
      then have 3: "offset (nid node) + j < offset (nid b)" using o(4) by simp
      have "nid node \<in> set (idsBefore (nid b) s)" using ob by simp
      then have 1: "splitID node j \<in> set (idsBefore (nid b) ?s')"
        unfolding splitResult_def
        using idsBefore_insertAfter_behind [of "nid node" "nid b" "map (splitRelink node j lv) s" "splitRight node j rv"]
          splitOK_fresh [OF ok] old(2)
        by auto
      have "splitRight node j rv \<in> set ?s'"
        unfolding st by simp
      then have 2: "\<exists>n\<in>set ?s'. nid n = splitID node j \<and> insNext n = Some (nid b)"
        by (rule rev_bexI) (simp add: True)
      show ?thesis using old True 1 2 3 ob by (simp add: splitRelink_insPrev)
    next
      case False
      then have ip: "insPrev m = insPrev b" using old by (auto simp: splitRelink_insPrev)
      show ?thesis
      proof (cases "insPrev b")
        case None
        then show ?thesis using ip by simp
      next
        case (Some p)
        then obtain n where n: "p \<in> set (idsBefore (nid b) s)" "n \<in> set s" "nid n = p"
          "insNext n = Some (nid b)" "createdAt p = createdAt (nid b)" "offset p < offset (nid b)"
          using o(10) [unfolded insPrevLinked_def, rule_format, OF old(2)] by auto
        have 1: "p \<in> set (idsBefore (nid m) ?s')"
          using splitOK_idsBefore_old [OF ok old(2)] n(1) old by auto
        have nn: "nid n \<noteq> nid node"
        proof
          assume e: "nid n = nid node"
          then have "n = node" using splitOK_node_id [OF ok n(2)] by simp
          then have i: "insNext node = Some (nid b)" using n by simp
          then have "nid b = nid node" using False by simp
          then show False using splitOK_insNext_node [OF ok i] by simp
        qed
        have "splitRelink node j lv n \<in> set ?s'"
          unfolding st using n(2) by simp
        then have 2: "\<exists>n'\<in>set ?s'. nid n' = p \<and> insNext n' = Some (nid m)"
          by (rule rev_bexI) (use n nn old in \<open>simp add: splitRelink_insNext\<close>)
        show ?thesis using ip Some 1 2 n(5,6) old by simp
      qed
    qed
  qed
qed

lemma splitOK_insNextLinked:
  assumes ok: "splitOK s node j lv rv"
  shows "insNextLinked (splitResult node j lv rv s)"
  unfolding insNextLinked_def
proof (intro ballI)
  fix n assume "n \<in> set (splitResult node j lv rv s)"
  then have n: "n \<in> insert (splitRight node j rv) (splitRelink node j lv ` set s)"
    using splitOK_set [OF ok] by simp
  note o = splitOK_D [OF ok]
  let ?s' = "splitResult node j lv rv s"
  note st = splitOK_set [OF ok]
  consider (new) "n = splitRight node j rv" | (old) a where "n = splitRelink node j lv a" "a \<in> set s"
    using n by auto
  then show "case insNext n of None \<Rightarrow> True
             | Some k \<Rightarrow> \<exists>m\<in>set ?s'. nid m = k \<and> insPrev m = Some (nid n)"
  proof cases
    case new
    show ?thesis
    proof (cases "insNext node")
      case None
      then show ?thesis using new by simp
    next
      case (Some q)
      then obtain m where m: "m \<in> set s" "nid m = q" "insPrev m = Some (nid node)" "q \<noteq> nid node"
        using splitOK_insNext_node [OF ok] by blast
      have "splitRelink node j lv m \<in> set ?s'"
        unfolding st using m(1) by simp
      then have "\<exists>m'\<in>set ?s'. nid m' = q \<and> insPrev m' = Some (splitID node j)"
        by (rule rev_bexI) (use m Some in \<open>simp add: splitRelink_insPrev\<close>)
      then show ?thesis using new Some by simp
    qed
  next
    case old
    show ?thesis
    proof (cases "nid a = nid node")
      case True
      have "splitRight node j rv \<in> set ?s'"
        unfolding st by simp
      then have "\<exists>m\<in>set ?s'. nid m = splitID node j \<and> insPrev m = Some (nid node)"
        by (rule rev_bexI) simp
      then show ?thesis using old True by (simp add: splitRelink_insNext)
    next
      case False
      then have eq: "insNext n = insNext a" using old by (simp add: splitRelink_insNext)
      show ?thesis
      proof (cases "insNext a")
        case None
        then show ?thesis using eq by simp
      next
        case (Some q)
        then obtain m where m: "m \<in> set s" "nid m = q" "insPrev m = Some (nid a)"
          using o(11) [unfolded insNextLinked_def, rule_format, OF old(2)] by auto
        have "\<not> (nid m \<noteq> nid node \<and> insNext node = Some (nid m))"
        proof
          assume "nid m \<noteq> nid node \<and> insNext node = Some (nid m)"
          then obtain m' where m': "m' \<in> set s" "nid m' = nid m" "insPrev m' = Some (nid node)"
            using splitOK_insNext_node [OF ok] by blast
          then have "m' = m" using node_eq_by_id [OF o(7) m'(1) m(1)] by simp
          then show False using m m' False by simp
        qed
        then have ip: "insPrev (splitRelink node j lv m) = insPrev m"
          by (auto simp: splitRelink_insPrev)
        have "splitRelink node j lv m \<in> set ?s'"
          unfolding st using m(1) by simp
        then have "\<exists>m'\<in>set ?s'. nid m' = q \<and> insPrev m' = Some (nid n)"
          by (rule rev_bexI) (use m old ip in simp)
        then show ?thesis using eq Some by simp
      qed
    qed
  qed
qed

theorem wf_splitResult:
  assumes ok: "splitOK s node j lv rv"
  shows "wf_split (splitResult node j lv rv s)"
  unfolding wf_split_def
  using splitOK_hd [OF ok] splitOK_distinct [OF ok] splitOK_disjoint [OF ok]
    splitOK_adjacent [OF ok] splitOK_insPrevLinked [OF ok] splitOK_insNextLinked [OF ok]
  by simp

subsection \<open>What splitNode does to a well-formed list\<close>

lemma js_substring_left:
  "0 < off \<Longrightarrow> off < int (length c) \<Longrightarrow> length (js_substring 0 off c) = nat off"
  by (auto simp: js_substring_def Let_def min_def max_def)

lemma js_substring_right:
  "0 < off \<Longrightarrow> off < int (length c) \<Longrightarrow>
     length (js_substring off (int (length c)) c) = length c - nat off"
  by (auto simp: js_substring_def Let_def min_def max_def)

lemma value_substring_content:
  "content (fst (value_substring a b v h)) = js_substring a b (content v)"
  by (simp add: value_substring_def alloc_def)

lemma updateNode_as_map: "updateNode k f s = map (\<lambda>n. if nid n = k then f n else n) s"
  by (simp add: updateNode_def)

lemma insertAfter_cong:
  "new = new' \<Longrightarrow> (\<And>n. n \<in> set s \<Longrightarrow> f n = g n) \<Longrightarrow>
     insertAfter k new (map f s) = insertAfter k new' (map g s)"
  by (simp cong: map_cong)

lemma updateNode_insertAfter:
  "(\<And>n. nid (f n) = nid n) \<Longrightarrow>
     updateNode a f (insertAfter k new s) =
       insertAfter k (if nid new = a then f new else new) (updateNode a f s)"
  by (induction s) (auto simp: updateNode_def)

lemma updateNode_notin: "a \<notin> nid ` set s \<Longrightarrow> updateNode a f s = s"
  by (induction s) (auto simp: updateNode_def)

lemma ids_updateNode:
  "(\<And>n. nid (f n) = nid n) \<Longrightarrow> nid ` set (updateNode k f s) = nid ` set s"
  by (induction s) (auto simp: updateNode_def)

lemma splitNode_state:
  assumes wf: "wf_split s" and sn: "splitNode sz k off s h = (r, s', h')" and nonneg: "0 \<le> off"
  shows "s' = s \<or> (\<exists>node j lv rv. splitOK s node j lv rv \<and> nid node = k \<and> 0 < off \<and>
                        j = nat off \<and> s' = splitResult node j lv rv s)"
proof (cases "lookupNode k s")
  case None
  then show ?thesis using sn by (simp add: splitNode_def)
next
  case (Some node)
  then have node: "node \<in> set s" "nid node = k" using lookupNode_SomeD by auto
  show ?thesis
  proof (cases "off > int (getContentLength node) \<or> off = 0 \<or> off = int (getContentLength node)
                \<or> val node = None")
    case True
    then consider "off > int (getContentLength node)"
      | "\<not> off > int (getContentLength node)" "off = 0"
      | "\<not> off > int (getContentLength node)" "off \<noteq> 0" "off = int (getContentLength node)"
      | "\<not> off > int (getContentLength node)" "off \<noteq> 0" "off \<noteq> int (getContentLength node)"
        "val node = None"
      by fastforce
    then have "s' = s"
      using sn Some by cases (simp_all add: splitNode_def)
    then show ?thesis ..
  next
    case False
    then obtain v where v: "val node = Some v" by auto
    have len: "getContentLength node = length (content v)"
      using v by (simp add: getContentLength_def)
    show ?thesis
    proof -
      have off: "0 < off" "off < int (length (content v))" using False len nonneg by auto
      obtain lv h1 where lv: "value_substring 0 off v h = (lv, h1)"
        by fastforce
      obtain rv h2 where rv: "value_substring off (int (length (content v))) v h1 = (rv, h2)"
        by fastforce
      define j where "j = nat off"
      have "content lv = js_substring 0 off (content v)"
        "content rv = js_substring off (int (length (content v))) (content v)"
        using value_substring_content [of 0 off v h]
          value_substring_content [of off "int (length (content v))" v h1] lv rv
        by simp_all
      then have ok: "splitOK s node j lv rv"
        using wf node off len js_substring_left [OF off] js_substring_right [OF off]
        by (simp add: splitOK_def j_def)
      have sid: "id_split (nid node) off = splitID node j"
        using off by (simp add: id_split_def splitID_def j_def nat_add_distrib)
      note o = splitOK_D [OF ok]
      have fresh: "splitID node j \<notin> nid ` set s" using splitOK_fresh [OF ok] .
      have sk: "splitID node j \<noteq> k" using fresh node by auto
      have nxk: "\<And>nx. insNext node = Some nx \<Longrightarrow> nx \<noteq> k \<and> nx \<noteq> splitID node j"
        using splitOK_insNext_node [OF ok] fresh node by (metis imageI)
      have raw: "s' = setInsPrev (splitID node j) (Some k)
                   (case insNext node of
                      None \<Rightarrow> insertAfter k \<lparr>nid = splitID node j, val = Some rv,
                                 removedAt = removedAt node, insPrev = None, insNext = None\<rparr>
                               (updateNode k (\<lambda>n. n\<lparr>val := Some lv\<rparr>) s)
                    | Some nx \<Rightarrow> setInsPrev nx (Some (splitID node j))
                               (insertAfter k \<lparr>nid = splitID node j, val = Some rv,
                                 removedAt = removedAt node, insPrev = None, insNext = None\<rparr>
                               (updateNode k (\<lambda>n. n\<lparr>val := Some lv\<rparr>) s)))"
        using sn Some False v sid lv rv
        by (cases "insNext node") (auto simp: splitNode_def Let_def)
      have s': "s' = splitResult node j lv rv s"
      proof (cases "insNext node")
        case None
        have "s' = insertAfter k (splitRight node j rv)
                     (updateNode k (\<lambda>n. n\<lparr>insNext := Some (splitID node j)\<rparr>)
                        (updateNode k (\<lambda>n. n\<lparr>val := Some lv\<rparr>) s))"
          unfolding raw using None sk fresh node(2)
          by (simp add: setInsPrev_def updateNode_insertAfter updateNode_notin ids_updateNode
              splitRight_def)
        also have "\<dots> = splitResult node j lv rv s"
          unfolding splitResult_def updateNode_def map_map node(2)
          by (rule insertAfter_cong) (use None node in \<open>auto simp: splitRelink_def\<close>)
        finally show ?thesis .
      next
        case (Some nx)
        note n = nxk [OF Some]
        have "s' = insertAfter k (splitRight node j rv)
                     (updateNode k (\<lambda>n. n\<lparr>insNext := Some (splitID node j)\<rparr>)
                       (updateNode nx (\<lambda>n. n\<lparr>insPrev := Some (splitID node j)\<rparr>)
                        (updateNode k (\<lambda>n. n\<lparr>val := Some lv\<rparr>) s)))"
          unfolding raw using Some sk fresh node(2) n
          by (simp add: setInsPrev_def updateNode_insertAfter updateNode_notin ids_updateNode
              splitRight_def)
        also have "\<dots> = splitResult node j lv rv s"
          unfolding splitResult_def updateNode_def map_map node(2)
          by (rule insertAfter_cong) (use Some node n in \<open>auto simp: splitRelink_def\<close>)
        finally show ?thesis .
      qed
      show ?thesis using ok s' node off j_def by blast
    qed
  qed
qed

subsection \<open>findNodeWithSplit on well-formed lists\<close>

lemma findFloorNodePreferToLeft_Inr:
  assumes wf: "wf_split s" and f: "findFloorNodePreferToLeft i s = Inr node"
  shows "node \<in> set s \<and> createdAt (nid node) = createdAt i \<and> offset (nid node) \<le> offset i"
proof -
  obtain e where e: "findFloorNode i s = Some e"
    using f by (auto simp: findFloorNodePreferToLeft_def split: option.splits)
  note fe = findFloorNode_Some [OF e]
  show ?thesis
  proof (cases "offset i > 0 \<and> offset (nid e) = offset i \<and> insPrev e \<noteq> None")
    case True
    then obtain p where p: "insPrev e = Some p" by auto
    then have l: "lookupNode p s = Some node"
      using f e True by (auto simp: findFloorNodePreferToLeft_def split: option.splits)
    have "createdAt p = createdAt (nid e) \<and> offset p < offset (nid e)"
      using wf fe p unfolding wf_split_def insPrevLinked_def by fastforce
    then show ?thesis using lookupNode_SomeD [OF l] fe by auto
  next
    case False
    then have "node = e"
      using f e by (auto simp: findFloorNodePreferToLeft_def split: option.splits if_splits)
    then show ?thesis using fe by simp
  qed
qed

lemma findNodeWithSplit_state:
  assumes wf: "wf_split s" and f: "findNodeWithSplit sz pos t s h = (r, s', h')"
  shows "s' = s \<or> (\<exists>node j lv rv. splitOK s node j lv rv \<and> s' = splitResult node j lv rv s)"
proof (cases "findFloorNodePreferToLeft (getAbsoluteID pos) s")
  case (Inl e)
  then show ?thesis using f by (simp add: findNodeWithSplit_def)
next
  case (Inr node)
  note n = findFloorNodePreferToLeft_Inr [OF wf Inr]
  let ?off = "int (offset (getAbsoluteID pos)) - int (offset (nid node))"
  have nonneg: "0 \<le> ?off" using n by simp
  obtain r1 s1 h1 where sn: "splitNode sz (nid node) ?off s h = (r1, s1, h1)"
    using prod_cases3 by blast
  have "s' = s1" using f Inr sn
    by (auto simp: findNodeWithSplit_def Let_def split: sum.splits prod.splits)
  then show ?thesis using splitNode_state [OF wf sn nonneg] by blast
qed

lemma findNodeWithSplit_wf:
  assumes wf: "wf_split s" and f: "findNodeWithSplit sz pos t s h = (r, s', h')"
  shows "wf_split s'"
  using findNodeWithSplit_state [OF wf f] wf wf_splitResult by blast

lemma wf_map_preserving:
  assumes wf: "wf_split s"
    and g: "\<And>n. nid (g n) = nid n \<and> val (g n) = val n \<and> insPrev (g n) = insPrev n \<and>
                 insNext (g n) = insNext n"
    and h: "g (hd s) = hd s"
  shows "wf_split (map g s)"
proof -
  have cl: "\<And>n. getContentLength (g n) = getContentLength n"
    using g by (simp add: getContentLength_def)
  have ib: "\<And>b. idsBefore b (map g s) = idsBefore b s"
    using g by simp
  have 1: "map g s \<noteq> [] \<and> hd (map g s) = headNode"
    using wf h by (simp add: wf_split_def hd_map)
  have 2: "distinct (map nid (map g s))"
    using wf g by (simp add: wf_split_def o_def)
  have 3: "disjointPieces (map g s)"
    using wf g cl by (simp add: wf_split_def disjointPieces_def)
  have 4: "adjacentLinked (map g s)"
    using wf g cl by (simp add: wf_split_def adjacentLinked_def)
  have 5: "insPrevLinked (map g s)"
    unfolding insPrevLinked_def
  proof (intro ballI)
    fix m assume "m \<in> set (map g s)"
    then obtain b where b: "b \<in> set s" "m = g b" by auto
    have "case insPrev b of None \<Rightarrow> True
          | Some k \<Rightarrow> k \<in> set (idsBefore (nid b) s) \<and>
              createdAt k = createdAt (nid b) \<and> offset k < offset (nid b) \<and>
              (\<exists>n\<in>set s. nid n = k \<and> insNext n = Some (nid b))"
      using wf b(1) by (simp add: wf_split_def insPrevLinked_def)
    then show "case insPrev m of None \<Rightarrow> True
          | Some k \<Rightarrow> k \<in> set (idsBefore (nid m) (map g s)) \<and>
              createdAt k = createdAt (nid m) \<and> offset k < offset (nid m) \<and>
              (\<exists>n\<in>set (map g s). nid n = k \<and> insNext n = Some (nid m))"
      using b g ib by (cases "insPrev b") (auto simp: image_iff)
  qed
  have 6: "insNextLinked (map g s)"
    unfolding insNextLinked_def
  proof (intro ballI)
    fix n assume "n \<in> set (map g s)"
    then obtain a where a: "a \<in> set s" "n = g a" by auto
    have "case insNext a of None \<Rightarrow> True
          | Some k \<Rightarrow> (\<exists>m\<in>set s. nid m = k \<and> insPrev m = Some (nid a))"
      using wf a(1) by (simp add: wf_split_def insNextLinked_def)
    then show "case insNext n of None \<Rightarrow> True
          | Some k \<Rightarrow> (\<exists>m\<in>set (map g s). nid m = k \<and> insPrev m = Some (nid n))"
      using a g by (cases "insNext a") (auto simp: image_iff)
  qed
  show ?thesis using 1 2 3 4 5 6 by (simp add: wf_split_def)
qed

lemma wf_insert_fresh:
  assumes wf: "wf_split s"
    and fresh: "\<forall>n\<in>set s. createdAt (nid n) \<noteq> createdAt (nid new)"
    and links: "insPrev new = None" "insNext new = None"
  shows "wf_split (insertAfter k new s)"
proof (cases "k \<in> nid ` set s")
  case False
  then show ?thesis using wf by (simp add: insertAfter_notin)
next
  case True
  note st = set_insertAfter [OF True, of new]
  have nf: "nid new \<notin> nid ` set s" using fresh by auto
  have 1: "insertAfter k new s \<noteq> [] \<and> hd (insertAfter k new s) = headNode"
    using wf by (simp add: wf_split_def)
  have 2: "distinct (map nid (insertAfter k new s))"
    using wf nf by (simp add: wf_split_def distinct_insertAfter)
  have 3: "disjointPieces (insertAfter k new s)"
    using wf fresh unfolding wf_split_def disjointPieces_def st by auto
  have 4: "adjacentLinked (insertAfter k new s)"
    using wf fresh unfolding wf_split_def adjacentLinked_def st by auto
  have 5: "insPrevLinked (insertAfter k new s)"
    unfolding insPrevLinked_def st
  proof (intro ballI)
    fix m assume m: "m \<in> insert new (set s)"
    show "case insPrev m of None \<Rightarrow> True
          | Some p \<Rightarrow> p \<in> set (idsBefore (nid m) (insertAfter k new s)) \<and>
              createdAt p = createdAt (nid m) \<and> offset p < offset (nid m) \<and>
              (\<exists>n\<in>insert new (set s). nid n = p \<and> insNext n = Some (nid m))"
    proof (cases "m = new")
      case True
      then show ?thesis using links by simp
    next
      case False
      then have ms: "m \<in> set s" using m by simp
      then have "nid new \<noteq> nid m" using nf by auto
      then have sub: "set (idsBefore (nid m) s) \<subseteq> set (idsBefore (nid m) (insertAfter k new s))"
        using idsBefore_insertAfter by simp
      show ?thesis
        using wf ms sub unfolding wf_split_def insPrevLinked_def
        by (fastforce split: option.splits)
    qed
  qed
  have 6: "insNextLinked (insertAfter k new s)"
    using wf links unfolding wf_split_def insNextLinked_def st
    by (fastforce split: option.splits)
  show ?thesis using 1 2 3 4 5 6 by (simp add: wf_split_def)
qed

subsection \<open>deleteNodes and edit on well-formed lists\<close>

lemma tombstone_empty [simp]: "map (tombstone t {}) s = s"
  by (induction s) (simp_all add: tombstone_def)

lemma foldl_remove:
  "foldl (\<lambda>st node. updateNode (nid node) (node_remove (Some t)) st) s ds =
     map (tombstone t (nid ` set ds)) s"
proof (induction ds arbitrary: s)
  case Nil
  then show ?case by (simp add: tombstone_def)
next
  case (Cons d ds)
  have "map (tombstone t (nid ` set ds)) (updateNode (nid d) (node_remove (Some t)) s) =
        map (tombstone t (nid ` set (d # ds))) s"
    by (auto simp: updateNode_def tombstone_def node_remove_def)
  then show ?case using Cons by simp
qed

lemma filterLoop_fst:
  "fst (filterLoop t vv cs) =
     filter (\<lambda>n. canDelete t (clientLamportAtChange vv (actorID (getCreatedAt n))) n) cs"
  by (induction cs) (auto simp: Let_def split: prod.splits)

lemma filterLoop_snd:
  "snd (filterLoop t vv cs) =
     map Some (filter (\<lambda>n. \<not> canDelete t (clientLamportAtChange vv (actorID (getCreatedAt n))) n) cs)"
  by (induction cs) (auto simp: Let_def split: prod.splits)

lemma deleteNodes_state:
  assumes "deleteNodes cs t vv s = (r, s')"
  shows "(case r of
            Inl e \<Rightarrow> s' = s
          | Inr x \<Rightarrow> s' = map (tombstone t (nid ` {c \<in> set cs. deletable t vv c})) s)"
proof (cases "cs = []")
  case True
  then show ?thesis using assms by (auto simp: deleteNodes_def)
next
  case False
  show ?thesis
  proof (cases "filterNodes cs t vv s")
    case (Inl e)
    then show ?thesis using assms False by (auto simp: deleteNodes_def)
  next
    case (Inr p)
    then obtain del keep where p: "p = (del, keep)" by (cases p)
    have "del = filter (\<lambda>n. canDelete t (clientLamportAtChange vv (actorID (getCreatedAt n))) n) cs"
      using Inr p filterLoop_fst [of t vv cs]
      by (auto simp: filterNodes_def split: sum.splits prod.splits)
    then have del: "del = filter (deletable t vv) cs"
      by (simp add: deletable_def [abs_def])
    show ?thesis
      using assms False Inr p del
      by (auto simp: deleteNodes_def foldl_remove split: sum.splits)
  qed
qed

lemma getNext_in_tl:
  "distinct (map nid s) \<Longrightarrow> getNext k s = Some x \<Longrightarrow> x \<in> nid ` set (tl s)"
proof (induction s)
  case Nil
  then show ?case by simp
next
  case (Cons a s)
  show ?case
  proof (cases "nid a = k")
    case True
    then show ?thesis using Cons.prems by (cases s) auto
  next
    case False
    then have "x \<in> nid ` set (tl s)" using Cons by auto
    then show ?thesis by (cases s) auto
  qed
qed

lemma findBetween_subset_tl:
  assumes d: "distinct (map nid s)" and f: "f \<in> nid ` set (tl s)"
  shows "set (findBetween (Some f) to s) \<subseteq> set (tl s)"
proof -
  have ne: "s \<noteq> []" using f by auto
  then obtain a s0 where s: "s = a # s0" by (cases s) auto
  have "nid a \<noteq> f" using d f s by auto
  then have "findBetween (Some f) to s = findBetween (Some f) to s0"
    using s by (simp add: findBetween_def)
  moreover have "set (findBetween (Some f) to s0) \<subseteq> set s0"
    by (auto simp: findBetween_def dest!: set_takeWhileD set_dropWhileD)
  ultimately show ?thesis using s by simp
qed

lemma findBetween_None [simp]: "findBetween None to s = []"
  by (simp add: findBetween_def)

lemma findNodeWithSplit_next:
  assumes "findNodeWithSplit sz pos t s h = (Inr (l, d, r), s', h')"
  shows "r = getNext l s'"
  using assms
  by (auto simp: findNodeWithSplit_def Let_def split: sum.splits prod.splits)

lemma edit_state_cases:
  assumes e: "edit sz rng t v vv s h = (r, s', h')"
  shows "\<exists>r1 s1 h1. findNodeWithSplit sz (snd rng) t s h = (r1, s1, h1) \<and>
           (s' = s1 \<or>
            (\<exists>tl dt tr r2 s2 h2. r1 = Inr (tl, dt, tr) \<and>
               findNodeWithSplit sz (fst rng) t s1 h1 = (r2, s2, h2) \<and>
               (s' = s2 \<or>
                (\<exists>fl df fr r3 s3. r2 = Inr (fl, df, fr) \<and>
                   deleteNodes (findBetween fr tr s2) t vv s2 = (r3, s3) \<and>
                   (s' = s3 \<or>
                    (\<exists>value. v = Some value \<and>
                       s' = insertAfter fl (node_create \<lparr>createdAt = t, offset = 0\<rparr> (Some value)) s3))))))"
proof -
  obtain r1 s1 h1 where 1: "findNodeWithSplit sz (snd rng) t s h = (r1, s1, h1)"
    using prod_cases3 by blast
  show ?thesis
  proof (cases r1)
    case (Inl a)
    then show ?thesis using e 1 by (simp add: edit_def)
  next
    case (Inr p1)
    then obtain tl dt tr where p1: "r1 = Inr (tl, dt, tr)" by (cases p1) auto
    obtain r2 s2 h2 where 2: "findNodeWithSplit sz (fst rng) t s1 h1 = (r2, s2, h2)"
      using prod_cases3 by blast
    show ?thesis
    proof (cases r2)
      case (Inl a)
      then have "s' = s2" using e 1 p1 2 by (simp add: edit_def)
      then show ?thesis using 1 p1 2 by blast
    next
      case (Inr p2)
      then obtain fl df fr where p2: "r2 = Inr (fl, df, fr)" by (cases p2) auto
      obtain r3 s3 where 3: "deleteNodes (findBetween fr tr s2) t vv s2 = (r3, s3)"
        by fastforce
      have "s' = s3 \<or> (\<exists>value. v = Some value \<and>
                       s' = insertAfter fl (node_create \<lparr>createdAt = t, offset = 0\<rparr> (Some value)) s3)"
      proof (cases r3)
        case (Inl a)
        then show ?thesis using e 1 p1 2 p2 3 by (simp add: edit_def Let_def)
      next
        case (Inr p3)
        then obtain ch rm where p3: "r3 = Inr (ch, rm)" by (cases p3) auto
        show ?thesis
        proof (cases v)
          case None
          then show ?thesis using e 1 p1 2 p2 3 p3 by (simp add: edit_def Let_def)
        next
          case (Some vl)
          note vS = Some
          show ?thesis
          proof (cases "lookupNode fl s3")
            case None
            then show ?thesis using e 1 p1 2 p2 3 p3 vS by (simp add: edit_def Let_def)
          next
            case (Some fln)
            show ?thesis
              using e 1 p1 2 p2 3 p3 vS Some
              by (cases "posToIndex (snd (createPosRange fln)) True s3")
                 (simp_all add: edit_def Let_def)
          qed
        qed
      qed
      then show ?thesis using 1 p1 2 p2 3 by blast
    qed
  qed
qed

lemma wf_tombstone:
  assumes wf: "wf_split s" and K: "nid (hd s) \<notin> K"
  shows "wf_split (map (tombstone t K) s)"
  by (rule wf_map_preserving [OF wf]) (use K in \<open>auto simp: tombstone_def\<close>)

lemma splitResult_createdAt:
  assumes ok: "splitOK s node j lv rv"
  shows "(\<lambda>n. createdAt (nid n)) ` set (splitResult node j lv rv s) = (\<lambda>n. createdAt (nid n)) ` set s"
  unfolding splitOK_set [OF ok]
  using splitOK_D(2) [OF ok] by (auto simp: image_iff)

lemma findNodeWithSplit_createdAt:
  assumes wf: "wf_split s" and f: "findNodeWithSplit sz pos t s h = (r, s', h')"
  shows "(\<lambda>n. createdAt (nid n)) ` set s' = (\<lambda>n. createdAt (nid n)) ` set s"
proof -
  from findNodeWithSplit_state [OF wf f] show ?thesis
  proof
    assume "s' = s"
    then show ?thesis by simp
  next
    assume "\<exists>node j lv rv. splitOK s node j lv rv \<and> s' = splitResult node j lv rv s"
    then obtain node j lv rv where "splitOK s node j lv rv" "s' = splitResult node j lv rv s"
      by blast
    then show ?thesis using splitResult_createdAt by simp
  qed
qed

lemma deleteNodes_wf:
  assumes wf: "wf_split s" and d: "deleteNodes (findBetween (getNext l s) to s) t vv s = (r, s')"
  shows "wf_split s' \<and> map nid s' = map nid s"
proof (cases r)
  case (Inl a)
  then show ?thesis using deleteNodes_state [OF d] wf by simp
next
  case (Inr b)
  let ?cs = "findBetween (getNext l s) to s"
  have s': "s' = map (tombstone t (nid ` {c \<in> set ?cs. deletable t vv c})) s"
    using deleteNodes_state [OF d] Inr by simp
  have dist: "distinct (map nid s)" and ne: "s \<noteq> []" using wf by (simp_all add: wf_split_def)
  have "set ?cs \<subseteq> set (tl s)"
  proof (cases "getNext l s")
    case None
    then show ?thesis by simp
  next
    case (Some f)
    then show ?thesis using findBetween_subset_tl [OF dist getNext_in_tl [OF dist Some]] by simp
  qed
  moreover have "nid (hd s) \<notin> nid ` set (tl s)"
    using dist ne by (cases s) auto
  ultimately have "nid (hd s) \<notin> nid ` {c \<in> set ?cs. deletable t vv c}" by auto
  then show ?thesis using wf_tombstone [OF wf] s' by (simp add: tombstone_def o_def cong: map_cong)
qed

theorem edit_wf:
  assumes wf: "wf_split s"
    and fresh: "v \<noteq> None \<longrightarrow> (\<forall>n\<in>set s. createdAt (nid n) \<noteq> t)"
    and e: "edit sz rng t v vv s h = (r, s', h')"
  shows "wf_split s'"
proof -
  obtain r1 s1 h1 where 1: "findNodeWithSplit sz (snd rng) t s h = (r1, s1, h1)"
    and c1: "s' = s1 \<or>
            (\<exists>tl dt tr r2 s2 h2. r1 = Inr (tl, dt, tr) \<and>
               findNodeWithSplit sz (fst rng) t s1 h1 = (r2, s2, h2) \<and>
               (s' = s2 \<or>
                (\<exists>fl df fr r3 s3. r2 = Inr (fl, df, fr) \<and>
                   deleteNodes (findBetween fr tr s2) t vv s2 = (r3, s3) \<and>
                   (s' = s3 \<or>
                    (\<exists>value. v = Some value \<and>
                       s' = insertAfter fl (node_create \<lparr>createdAt = t, offset = 0\<rparr> (Some value)) s3)))))"
    using edit_state_cases [OF e] by blast
  have w1: "wf_split s1" using findNodeWithSplit_wf [OF wf 1] .
  have f1: "(\<lambda>n. createdAt (nid n)) ` set s1 = (\<lambda>n. createdAt (nid n)) ` set s"
    using findNodeWithSplit_createdAt [OF wf 1] .
  show ?thesis
  proof (cases "s' = s1")
    case True
    then show ?thesis using w1 by simp
  next
    case False
    then obtain tl dt tr r2 s2 h2 where 2: "findNodeWithSplit sz (fst rng) t s1 h1 = (r2, s2, h2)"
      and c2: "s' = s2 \<or>
                (\<exists>fl df fr r3 s3. r2 = Inr (fl, df, fr) \<and>
                   deleteNodes (findBetween fr tr s2) t vv s2 = (r3, s3) \<and>
                   (s' = s3 \<or>
                    (\<exists>value. v = Some value \<and>
                       s' = insertAfter fl (node_create \<lparr>createdAt = t, offset = 0\<rparr> (Some value)) s3)))"
      using c1 by blast
    have w2: "wf_split s2" using findNodeWithSplit_wf [OF w1 2] .
    have f2: "(\<lambda>n. createdAt (nid n)) ` set s2 = (\<lambda>n. createdAt (nid n)) ` set s"
      using findNodeWithSplit_createdAt [OF w1 2] f1 by simp
    show ?thesis
    proof (cases "s' = s2")
      case True
      then show ?thesis using w2 by simp
    next
      case F2: False
      then obtain fl df fr r3 s3 where p2: "r2 = Inr (fl, df, fr)"
        and 3: "deleteNodes (findBetween fr tr s2) t vv s2 = (r3, s3)"
        and c3: "s' = s3 \<or> (\<exists>value. v = Some value \<and>
                       s' = insertAfter fl (node_create \<lparr>createdAt = t, offset = 0\<rparr> (Some value)) s3)"
        using c2 by blast
      have fr: "fr = getNext fl s2" using findNodeWithSplit_next 2 p2 by blast
      have w3: "wf_split s3" "map nid s3 = map nid s2"
        using deleteNodes_wf [OF w2] 3 fr by auto
      have "set (map nid s3) = set (map nid s2)" using w3 by simp
      then have "nid ` set s3 = nid ` set s2" by simp
      then have "createdAt ` nid ` set s3 = createdAt ` nid ` set s2" by simp
      then have f3: "(\<lambda>n. createdAt (nid n)) ` set s3 = (\<lambda>n. createdAt (nid n)) ` set s"
        using f2 by (simp add: image_image)
      show ?thesis
      proof (cases "s' = s3")
        case True
        then show ?thesis using w3 by simp
      next
        case F3: False
        then obtain vl where v: "v = Some vl"
          "s' = insertAfter fl (node_create \<lparr>createdAt = t, offset = 0\<rparr> (Some vl)) s3"
          using c3 by blast
        have "t \<notin> (\<lambda>n. createdAt (nid n)) ` set s"
          using fresh v by auto
        then have "t \<notin> (\<lambda>n. createdAt (nid n)) ` set s3"
          using f3 by simp
        then have "\<forall>n\<in>set s3. createdAt (nid n) \<noteq> t"
          by auto
        then show ?thesis
          unfolding v by (intro wf_insert_fresh [OF w3(1)]) (simp_all add: node_create_def)
      qed
    qed
  qed
qed

subsection \<open>setStyle, purge and the reachable lists\<close>

lemma setStyle_state:
  assumes "setStyle sz rng attrs t vv text h = (r, text', h')"
  shows "\<exists>r1 s1 h1. findNodeWithSplit sz (snd rng) t (rgaTreeSplit text) h = (r1, s1, h1) \<and>
           (rgaTreeSplit text' = s1 \<or>
            (\<exists>r2 s2 h2. findNodeWithSplit sz (fst rng) t s1 h1 = (r2, s2, h2) \<and>
                rgaTreeSplit text' = s2))"
proof -
  obtain r1 s1 h1 where 1: "findNodeWithSplit sz (snd rng) t (rgaTreeSplit text) h = (r1, s1, h1)"
    using prod_cases3 by blast
  obtain r2 s2 h2 where 2: "findNodeWithSplit sz (fst rng) t s1 h1 = (r2, s2, h2)"
    using prod_cases3 by blast
  have "rgaTreeSplit text' = s1 \<or> rgaTreeSplit text' = s2"
  proof (cases r1)
    case (Inl a)
    then show ?thesis using assms 1 by (auto simp: setStyle_def)
  next
    case (Inr p1)
    then obtain tl dt tr where p1: "r1 = Inr (tl, dt, tr)" by (cases p1) auto
    show ?thesis
    proof (cases r2)
      case (Inl a)
      then show ?thesis using assms 1 p1 2 by (auto simp: setStyle_def)
    next
      case (Inr p2)
      then obtain fl df fr where p2: "r2 = Inr (fl, df, fr)" by (cases p2) auto
      show ?thesis using assms 1 p1 2 p2
        by (auto simp: setStyle_def Let_def split: prod.splits)
    qed
  qed
  then show ?thesis using 1 2 by blast
qed

lemma setStyle_wf:
  assumes wf: "wf_split (rgaTreeSplit text)"
    and st: "setStyle sz rng attrs t vv text h = (r, text', h')"
  shows "wf_split (rgaTreeSplit text')"
proof -
  obtain r1 s1 h1 where 1: "findNodeWithSplit sz (snd rng) t (rgaTreeSplit text) h = (r1, s1, h1)"
    and c: "rgaTreeSplit text' = s1 \<or>
            (\<exists>r2 s2 h2. findNodeWithSplit sz (fst rng) t s1 h1 = (r2, s2, h2) \<and>
                rgaTreeSplit text' = s2)"
    using setStyle_state [OF st] by blast
  have w1: "wf_split s1" using findNodeWithSplit_wf [OF wf 1] .
  then show ?thesis using c findNodeWithSplit_wf [OF w1] by auto
qed

lemma wf_create: "wf_split RGATreeSplit_create"
  by (simp add: wf_split_def RGATreeSplit_create_def headNode_def disjointPieces_def
      adjacentLinked_def insPrevLinked_def insNextLinked_def node_create_def getContentLength_def)


section \<open>purge\<close>

lemma purgeRelink_sel [simp]:
  "nid (purgeRelink node n) = nid n" "val (purgeRelink node n) = val n"
  "removedAt (purgeRelink node n) = removedAt n"
  by (simp_all add: purgeRelink_def)

lemma purgeRelink_clen [simp]: "getContentLength (purgeRelink node n) = getContentLength n"
  by (simp add: getContentLength_def)

lemma wf_links:
  assumes wf: "wf_split s"
  shows "\<And>m p. m \<in> set s \<Longrightarrow> insPrev m = Some p \<Longrightarrow>
           p \<in> set (idsBefore (nid m) s) \<and> createdAt p = createdAt (nid m) \<and>
           offset p < offset (nid m) \<and> (\<exists>n\<in>set s. nid n = p \<and> insNext n = Some (nid m))"
    and "\<And>n q. n \<in> set s \<Longrightarrow> insNext n = Some q \<Longrightarrow>
           (\<exists>m\<in>set s. nid m = q \<and> insPrev m = Some (nid n))"
  using wf unfolding wf_split_def insPrevLinked_def insNextLinked_def
  by (fastforce split: option.splits)+

lemma wf_D:
  assumes "wf_split s"
  shows "s \<noteq> []" "hd s = headNode" "distinct (map nid s)" "disjointPieces s" "adjacentLinked s"
    "insPrevLinked s" "insNextLinked s"
  using assms by (simp_all add: wf_split_def)

lemma idsBefore_filter:
  "b \<noteq> k \<Longrightarrow> idsBefore b (filter (\<lambda>n. nid n \<noteq> k) s) = filter (\<lambda>i. i \<noteq> k) (idsBefore b s)"
  by (induction s) (auto simp: idsBefore_def)

lemma purge_eq:
  assumes wf: "wf_split s" and node: "node \<in> set s"
  shows "purge (nid node) s = purgeResult node s"
proof -
  note w = wf_D [OF wf]
  note l = wf_links [OF wf]
  have lk: "lookupNode (nid node) s = Some node" using lookupNode_Some [OF w(3) node] .
  have px: "\<And>p x. insPrev node = Some p \<Longrightarrow> insNext node = Some x \<Longrightarrow> p \<noteq> x"
  proof
    fix p x assume a: "insPrev node = Some p" "insNext node = Some x" "p = x"
    obtain m where m: "m \<in> set s" "nid m = x" "insPrev m = Some (nid node)"
      using l(2) [OF node a(2)] by blast
    have "offset p < offset (nid node)" using l(1) [OF node a(1)] by simp
    moreover have "offset (nid node) < offset (nid m)" using l(1) [OF m(1) m(3)] by simp
    ultimately show False using a(3) m(2) by simp
  qed
  show ?thesis
  proof (cases "insPrev node")
    case None
    note ipn = None
    show ?thesis
    proof (cases "insNext node")
      case None
      then show ?thesis using lk ipn
        by (simp add: purge_def purgeResult_def purgeRelink_def cong: map_cong)
    next
      case (Some x)
      then show ?thesis using lk ipn
        by (auto simp: purge_def purgeResult_def purgeRelink_def setInsPrev_def updateNode_def
            cong: map_cong)
    qed
  next
    case (Some p)
    note ipn = Some
    show ?thesis
    proof (cases "insNext node")
      case None
      then show ?thesis using lk ipn
        by (auto simp: purge_def purgeResult_def purgeRelink_def setInsNext_def updateNode_def
            cong: map_cong)
    next
      case (Some x)
      then show ?thesis using lk ipn px [OF ipn Some]
        by (auto simp: purge_def purgeResult_def purgeRelink_def setInsNext_def setInsPrev_def
            updateNode_def cong: map_cong)
    qed
  qed
qed


lemma idsBefore_trans:
  "a \<in> set (idsBefore b s) \<Longrightarrow> b \<in> set (idsBefore c s) \<Longrightarrow> a \<in> set (idsBefore c s)"
  by (induction s) (auto simp: idsBefore_def split: if_splits)

lemma purge_insPrev:
  "insPrev (purgeRelink node n) =
     (if insPrev node \<noteq> Some (nid n) \<and> insNext node = Some (nid n) then insPrev node
      else insPrev n)"
  by (simp add: purgeRelink_def)

lemma purge_insNext:
  "insNext (purgeRelink node n) = (if insPrev node = Some (nid n) then insNext node else insNext n)"
  by (simp add: purgeRelink_def)

lemma wf_purgeResult:
  assumes wf: "wf_split s" and node: "node \<in> set s" and rem: "removedAt node \<noteq> None"
  shows "wf_split (purgeResult node s)"
proof -
  note w = wf_D [OF wf]
  note l = wf_links [OF wf]
  let ?g = "purgeRelink node"
  let ?s' = "purgeResult node s"
  have hs: "headNode \<in> set s" using w(1,2) hd_in_set by metis
  have nh: "node \<noteq> headNode" using rem by (auto simp: headNode_def node_create_def)
  have idn: "\<And>n. n \<in> set s \<Longrightarrow> (nid n = nid node \<longleftrightarrow> n = node)"
    using node_eq_by_id [OF w(3) _ node] by auto
  have st: "set ?s' = ?g ` (set s - {node})"
    using idn by (auto simp: purgeResult_def)
  have px: "\<And>p x. insPrev node = Some p \<Longrightarrow> insNext node = Some x \<Longrightarrow> p \<noteq> x"
  proof
    fix p x assume a: "insPrev node = Some p" "insNext node = Some x" "p = x"
    obtain m where m: "m \<in> set s" "nid m = x" "insPrev m = Some (nid node)"
      using l(2) [OF node a(2)] by blast
    have "offset p < offset (nid node)" using l(1) [OF node a(1)] by simp
    moreover have "offset (nid node) < offset (nid m)" using l(1) [OF m(1) m(3)] by simp
    ultimately show False using a(3) m(2) by simp
  qed
  have P3a: "\<And>n. n \<in> set s \<Longrightarrow> insPrev n = Some (nid node) \<Longrightarrow> insNext node = Some (nid n)"
  proof -
    fix n assume n: "n \<in> set s" "insPrev n = Some (nid node)"
    obtain n2 where "n2 \<in> set s" "nid n2 = nid node" "insNext n2 = Some (nid n)"
      using l(1) [OF n] by blast
    then show "insNext node = Some (nid n)" using idn by auto
  qed
  have P3b: "\<And>n. n \<in> set s \<Longrightarrow> insNext n = Some (nid node) \<Longrightarrow> insPrev node = Some (nid n)"
  proof -
    fix n assume n: "n \<in> set s" "insNext n = Some (nid node)"
    obtain m where "m \<in> set s" "nid m = nid node" "insPrev m = Some (nid n)"
      using l(2) [OF n] by blast
    then show "insPrev node = Some (nid n)" using idn by auto
  qed
  have Q1: "\<And>b. b \<in> set s \<Longrightarrow> insNext node = Some (nid b) \<Longrightarrow> insPrev b = Some (nid node) \<and> b \<noteq> node"
  proof -
    fix b assume b: "b \<in> set s" "insNext node = Some (nid b)"
    obtain m where m: "m \<in> set s" "nid m = nid b" "insPrev m = Some (nid node)"
      using l(2) [OF node b(2)] by blast
    then have mb: "m = b" using node_eq_by_id [OF w(3) m(1) b(1)] by simp
    have "nid node \<in> set (idsBefore (nid b) s)" using l(1) [OF m(1) m(3)] m(2) by simp
    then have "nid b \<noteq> nid node" using idsBefore_irrefl [of "nid b" s] by auto
    then show "insPrev b = Some (nid node) \<and> b \<noteq> node" using m mb by auto
  qed
  have Q2: "\<And>a. a \<in> set s \<Longrightarrow> insPrev node = Some (nid a) \<Longrightarrow> insNext a = Some (nid node) \<and> a \<noteq> node"
  proof -
    fix a assume a: "a \<in> set s" "insPrev node = Some (nid a)"
    obtain n where n: "n \<in> set s" "nid n = nid a" "insNext n = Some (nid node)"
      using l(1) [OF node a(2)] by blast
    then have na: "n = a" using node_eq_by_id [OF w(3) n(1) a(1)] by simp
    have "nid a \<in> set (idsBefore (nid node) s)" using l(1) [OF node a(2)] by simp
    then have "nid a \<noteq> nid node" using idsBefore_irrefl [of "nid node" s] by auto
    then show "insNext a = Some (nid node) \<and> a \<noteq> node" using n na by auto
  qed
  have 1: "?s' \<noteq> [] \<and> hd ?s' = headNode"
  proof -
    obtain s0 where s: "s = headNode # s0" using w(1,2) by (cases s) auto
    have a: "nid headNode \<noteq> nid node" using idn [OF hs] nh by auto
    have b: "insPrev node \<noteq> Some (nid headNode)"
      using Q2 [OF hs] by (auto simp: headNode_def node_create_def)
    have c: "insNext node \<noteq> Some (nid headNode)"
      using Q1 [OF hs] by (auto simp: headNode_def node_create_def)
    show ?thesis using s a b c by (simp add: purgeResult_def purgeRelink_def)
  qed
  have 2: "distinct (map nid ?s')"
    using w(3) by (simp add: purgeResult_def o_def distinct_map_filter)
  have 3: "disjointPieces ?s'"
    using w(4) unfolding disjointPieces_def st by auto
  have 4: "adjacentLinked ?s'"
    unfolding adjacentLinked_def st
  proof (intro ballI impI)
    fix x y
    assume x: "x \<in> ?g ` (set s - {node})" and y: "y \<in> ?g ` (set s - {node})"
      and c: "createdAt (nid x) = createdAt (nid y) \<and>
              offset (nid x) + getContentLength x = offset (nid y) \<and> 0 < getContentLength x"
    obtain a b where ab: "a \<in> set s" "a \<noteq> node" "x = ?g a" "b \<in> set s" "b \<noteq> node" "y = ?g b"
      using x y by auto
    have ip: "insPrev b = Some (nid a)"
      using w(5) [unfolded adjacentLinked_def, rule_format, OF ab(1) ab(4)] c ab by simp
    have "insNext node \<noteq> Some (nid b)"
      using Q1 [OF ab(4)] ip idn [OF ab(1)] ab(2) by auto
    then show "insPrev y = Some (nid x)" using ab ip by (simp add: purge_insPrev)
  qed
  have ib: "\<And>b. b \<noteq> nid node \<Longrightarrow> idsBefore b ?s' = filter (\<lambda>i. i \<noteq> nid node) (idsBefore b s)"
    by (simp add: purgeResult_def idsBefore_filter)
  have 5: "insPrevLinked ?s'"
    unfolding insPrevLinked_def
  proof (intro ballI)
    fix m assume "m \<in> set ?s'"
    then obtain b where b: "b \<in> set s" "b \<noteq> node" "m = ?g b" using st by auto
    have bk: "nid b \<noteq> nid node" using idn [OF b(1)] b(2) by simp
    show "case insPrev m of None \<Rightarrow> True
          | Some k \<Rightarrow> k \<in> set (idsBefore (nid m) ?s') \<and>
              createdAt k = createdAt (nid m) \<and> offset k < offset (nid m) \<and>
              (\<exists>n\<in>set ?s'. nid n = k \<and> insNext n = Some (nid m))"
    proof (cases "insNext node = Some (nid b)")
      case True
      note q1 = Q1 [OF b(1) True]
      have nb: "insPrev node \<noteq> Some (nid b)" using px True by (cases "insPrev node") auto
      then have ipm: "insPrev m = insPrev node" using b True by (simp add: purge_insPrev)
      show ?thesis
      proof (cases "insPrev node")
        case None
        then show ?thesis using ipm by simp
      next
        case (Some p)
        note lp = l(1) [OF node Some]
        note lb = l(1) [OF b(1) conjunct1 [OF q1]]
        obtain pn where pn: "pn \<in> set s" "nid pn = p" using lp by blast
        have pk: "p \<noteq> nid node" using lp idsBefore_irrefl [of "nid node" s] by auto
        have "p \<in> set (idsBefore (nid b) s)" using idsBefore_trans lp lb by blast
        then have i1: "p \<in> set (idsBefore (nid m) ?s')" using ib [OF bk] pk b by simp
        have "?g pn \<in> set ?s'" using st pn pk by auto
        moreover have "insNext (?g pn) = Some (nid b)" using pn Some True by (simp add: purge_insNext)
        ultimately have i2: "\<exists>n\<in>set ?s'. nid n = p \<and> insNext n = Some (nid m)"
          using pn b by (intro rev_bexI [of "?g pn"]) auto
        show ?thesis using ipm Some i1 i2 lp lb b by simp
      qed
    next
      case False
      then have ipm: "insPrev m = insPrev b" using b by (simp add: purge_insPrev)
      show ?thesis
      proof (cases "insPrev b")
        case None
        then show ?thesis using ipm by simp
      next
        case (Some q)
        note lb = l(1) [OF b(1) Some]
        have qk: "q \<noteq> nid node" using P3a [OF b(1)] Some False by auto
        have i1: "q \<in> set (idsBefore (nid m) ?s')" using ib [OF bk] qk lb b by simp
        obtain n where n: "n \<in> set s" "nid n = q" "insNext n = Some (nid b)" using lb by blast
        have nn: "n \<noteq> node" using n qk by auto
        have "insPrev node \<noteq> Some (nid n)"
          using Q2 [OF n(1)] n(3) bk by auto
        then have "insNext (?g n) = Some (nid b)" using n by (simp add: purge_insNext)
        moreover have "?g n \<in> set ?s'" using st n nn by auto
        ultimately have i2: "\<exists>n\<in>set ?s'. nid n = q \<and> insNext n = Some (nid m)"
          using n b by (intro rev_bexI [of "?g n"]) auto
        show ?thesis using ipm Some i1 i2 lb b by simp
      qed
    qed
  qed
  have 6: "insNextLinked ?s'"
    unfolding insNextLinked_def
  proof (intro ballI)
    fix n assume "n \<in> set ?s'"
    then obtain a where a: "a \<in> set s" "a \<noteq> node" "n = ?g a" using st by auto
    have ak: "nid a \<noteq> nid node" using idn [OF a(1)] a(2) by simp
    show "case insNext n of None \<Rightarrow> True
          | Some k \<Rightarrow> \<exists>m\<in>set ?s'. nid m = k \<and> insPrev m = Some (nid n)"
    proof (cases "insPrev node = Some (nid a)")
      case True
      then have inn: "insNext n = insNext node" using a by (simp add: purge_insNext)
      show ?thesis
      proof (cases "insNext node")
        case None
        then show ?thesis using inn by simp
      next
        case (Some x)
        obtain m where m: "m \<in> set s" "nid m = x" "insPrev m = Some (nid node)"
          using l(2) [OF node Some] by blast
        have mn: "m \<noteq> node" using Q1 [OF m(1)] Some m by simp
        have "insPrev node \<noteq> Some (nid m)" using px [OF True Some] m True by auto
        then have "insPrev (?g m) = Some (nid a)" using Some m True by (simp add: purge_insPrev)
        moreover have "?g m \<in> set ?s'" using st m mn by auto
        ultimately have "\<exists>m\<in>set ?s'. nid m = x \<and> insPrev m = Some (nid n)"
          using m a by (intro rev_bexI [of "?g m"]) auto
        then show ?thesis using inn Some by simp
      qed
    next
      case False
      then have inn: "insNext n = insNext a" using a by (simp add: purge_insNext)
      show ?thesis
      proof (cases "insNext a")
        case None
        then show ?thesis using inn by simp
      next
        case (Some q)
        obtain m where m: "m \<in> set s" "nid m = q" "insPrev m = Some (nid a)"
          using l(2) [OF a(1) Some] by blast
        have mn: "m \<noteq> node" using m False by auto
        have "insNext node \<noteq> Some (nid m)" using Q1 [OF m(1)] m ak by auto
        then have "insPrev (?g m) = Some (nid a)" using m by (simp add: purge_insPrev)
        moreover have "?g m \<in> set ?s'" using st m mn by auto
        ultimately have "\<exists>m\<in>set ?s'. nid m = q \<and> insPrev m = Some (nid n)"
          using m a by (intro rev_bexI [of "?g m"]) auto
        then show ?thesis using inn Some by simp
      qed
    qed
  qed
  show ?thesis using 1 2 3 4 5 6 by (simp add: wf_split_def)
qed

lemma reachable_wf: "reachable s \<Longrightarrow> wf_split s"
proof (induction rule: reachable.induct)
  case reachable_create
  then show ?case by (rule wf_create)
next
  case (reachable_edit s v t sz rng vv h r s' h')
  then show ?case using edit_wf by blast
next
  case (reachable_setStyle tx sz rng attrs t vv h r tx' h')
  then show ?case using setStyle_wf by blast
next
  case (reachable_purge s n)
  then show ?case using purge_eq wf_purgeResult by simp
qed

section \<open>Claims about the block list\<close>

lemma exHello_reachable: "reachable exHello"
proof -
  obtain r s' h' where
    e: "edit exSizes (exPos0, exPos0) exNodeTicket (Some \<lparr>attributes = 0, content = ''hello''\<rparr>)
          None RGATreeSplit_create [[]] = (r, s', h')"
    using prod_cases3 by blast
  have "\<forall>n\<in>set RGATreeSplit_create. createdAt (nid n) \<noteq> exNodeTicket"
    by (simp add: RGATreeSplit_create_def node_create_def InitialRGATreeSplitNodeID_def
          InitialTimeTicket_def exNodeTicket_def)
  then have "reachable s'" using reachable_edit [OF reachable_create _ e] by simp
  then show ?thesis using e by (simp add: exHello_def)
qed

lemma exHello_length: "split_length exHello = 5"
  by code_simp

text \<open>
  C3. On every list that is reachable from the empty list by edits (local or remote; an
  insertion comes with a ticket that no node of the list carries yet), style changes and
  purges of removed nodes, and for every index \<open>i\<close> with \<open>0 \<le> i \<le> length\<close>,
  \<^verbatim>\<open>indexToPos(i)\<close> returns a position and \<^verbatim>\<open>posToIndex\<close> of it, preferring the left
  node, is \<open>i\<close>.
\<close>

theorem posToIndex_indexToPos:
  assumes "reachable s" and "i \<le> split_length s"
  shows "\<exists>p. indexToPos i s = Inr p \<and> posToIndex p True s = Inr (int i)"
  using roundtrip_wf [OF reachable_wf [OF assms(1)] assms(2)] .

theorem posToIndex_indexToPos_witness:
  "reachable exHello \<and> 3 \<le> split_length exHello \<and>
   (\<exists>p. indexToPos 3 exHello = Inr p \<and> posToIndex p True exHello = Inr 3)"
  using posToIndex_indexToPos [OF exHello_reachable, of 3] exHello_reachable exHello_length by simp

section \<open>Properties of the change context\<close>

lemma applyCall_ids:
  "prevID (applyCall ctx c) = prevID ctx \<and> nextID (applyCall ctx c) = nextID ctx"
  by (cases c) (simp_all add: push_def ctx_registerGCPair_def setPresenceChange_def
      setReversePresence_def issueTimeTicket_def ctx_acc_def Let_def)

lemma runCalls_ids:
  "prevID (runCalls calls ctx) = prevID ctx \<and> nextID (runCalls calls ctx) = nextID ctx"
  unfolding runCalls_def
  by (induction calls arbitrary: ctx) (simp_all add: applyCall_ids)

text \<open>
  Claim C5. For a context made by \<^verbatim>\<open>create\<close> from \<open>prev\<close> and used through any sequence
  of its methods: when its operation list is empty, \<^verbatim>\<open>toChange\<close> gives the change the
  identifier \<open>prev.next(true)\<close>, whose lamport is the lamport of \<open>prev\<close>; when the list
  is not empty, the identifier is \<open>nextID\<close>, which is \<open>prev.next(false)\<close>.
\<close>

theorem toChange_change_id:
  "let ctx = runCalls calls (ChangeContext_create prev r presence message) in
     (operations ctx = [] \<longrightarrow>
        change_id (toChange ctx) = ChangeID_next True prev \<and>
        cid_lamport (change_id (toChange ctx)) = cid_lamport prev) \<and>
     (operations ctx \<noteq> [] \<longrightarrow>
        change_id (toChange ctx) = nextID ctx \<and> nextID ctx = ChangeID_next False prev)"
  using runCalls_ids [of calls "ChangeContext_create prev r presence message"]
  by (simp add: Let_def toChange_def isPresenceOnlyChange_def ChangeContext_create_def
      ChangeID_next_def)

theorem toChange_change_id_witness:
  "(operations (runCalls [SetPresenceChange (Put [(''cursor'', ''2'')])]
       (ChangeContext_create exChangeID exRoot [] None)) = [] \<and>
    cid_lamport (change_id (toChange (runCalls [SetPresenceChange (Put [(''cursor'', ''2'')])]
       (ChangeContext_create exChangeID exRoot [] None)))) = 2) \<and>
   (operations (runCalls [IssueTimeTicket, Push (OtherOp exTextTicket exNodeTicket ''set'')]
       (ChangeContext_create exChangeID exRoot [] None)) =
      [OtherOp exTextTicket exNodeTicket ''set''] \<and>
    cid_lamport (change_id (toChange (runCalls [IssueTimeTicket, Push (OtherOp exTextTicket exNodeTicket ''set'')]
       (ChangeContext_create exChangeID exRoot [] None)))) = 3)"
  using toChange_change_id [of "[SetPresenceChange (Put [(''cursor'', ''2'')])]" exChangeID exRoot "[]" None]
    toChange_change_id [of "[IssueTimeTicket, Push (OtherOp exTextTicket exNodeTicket ''set'')]"
      exChangeID exRoot "[]" None]
  by (simp add: Let_def runCalls_def setPresenceChange_def ChangeContext_create_def push_def
      issueTimeTicket_def exChangeID_def ChangeID_next_def)

section \<open>Properties of the document\<close>

lemma replay_not_refused:
  assumes "\<forall>c src st. fst (changeExecute env c src st) \<noteq> Inl (YorkieError ErrRefused)"
  shows "fst (replay env b ops d) \<noteq> Inl (YorkieError ErrRefused)"
proof -
  have *: "\<And>c src st e x. changeExecute env c src st = (Inl e, x) \<Longrightarrow> e \<noteq> YorkieError ErrRefused"
    using assms by (metis fst_conv)
  show ?thesis
    unfolding replay_def Let_def
    by (auto split: option.splits prod.splits sum.splits dest: *)
qed

text \<open>
  Claim C7. Provided that executing a change does not itself raise \<open>Refused\<close>,
  \<^verbatim>\<open>undo\<close> raises \<open>Refused\<close> if and only if \<open>isUpdating\<close> is set or the undo stack is
  empty, and \<^verbatim>\<open>redo\<close> if and only if \<open>isUpdating\<close> is set or the redo stack is empty;
  in these cases the document, its stacks included, is left as it was.
\<close>

theorem undo_redo_refused:
  assumes "\<forall>c src st. fst (changeExecute env c src st) \<noteq> Inl (YorkieError ErrRefused)"
  shows "(fst (undo env d) = Inl (YorkieError ErrRefused) \<longleftrightarrow> isUpdating d \<or> undoStack d = []) \<and>
         (isUpdating d \<or> undoStack d = [] \<longrightarrow> undo env d = (Inl (YorkieError ErrRefused), d)) \<and>
         (fst (redo env d) = Inl (YorkieError ErrRefused) \<longleftrightarrow> isUpdating d \<or> redoStack d = []) \<and>
         (isUpdating d \<or> redoStack d = [] \<longrightarrow> redo env d = (Inl (YorkieError ErrRefused), d))"
  using replay_not_refused [OF assms]
  by (auto simp: undo_def redo_def popStack_def)

theorem undo_redo_refused_witness:
  "undoStack exDoc = [] \<and> redoStack exDoc = [] \<and>
   undo exEnv exDoc = (Inl (YorkieError ErrRefused), exDoc) \<and>
   redo exEnv exDoc = (Inl (YorkieError ErrRefused), exDoc) \<and>
   isUpdating (exDoc\<lparr>undoStack := [[HistPresence []]], isUpdating := True\<rparr>) \<and>
   fst (undo exEnv (exDoc\<lparr>undoStack := [[HistPresence []]], isUpdating := True\<rparr>)) =
     Inl (YorkieError ErrRefused) \<and>
   fst (undo exEnv (exDoc\<lparr>undoStack := [[HistPresence []]]\<rparr>)) \<noteq> Inl (YorkieError ErrRefused)"
proof -
  have h: "\<forall>c src st. fst (changeExecute exEnv c src st) \<noteq> Inl (YorkieError ErrRefused)"
    by (simp add: exEnv_def)
  show ?thesis
    using undo_redo_refused [OF h, of exDoc]
      undo_redo_refused [OF h, of "exDoc\<lparr>undoStack := [[HistPresence []]], isUpdating := True\<rparr>"]
      undo_redo_refused [OF h, of "exDoc\<lparr>undoStack := [[HistPresence []]]\<rparr>"]
    by (simp add: exDoc_def)
qed

lemma update_updater_raises:
  assumes "status d \<noteq> Removed"
    and "updaterCall updater message d = (Inl err, ctx', p', h')"
  shows "update env updater message d =
           (Inl err, (ensureClone d)\<lparr>clone := None, isUpdating := False, heap := h'\<rparr>)"
proof -
  obtain cr cp where c: "clone (ensureClone d) = Some (cr, cp)"
    by (cases "clone d") (auto simp: ensureClone_def)
  show ?thesis
    using assms c by (simp add: update_def updaterCall_def Let_def)
qed

text \<open>
  Claim C4, the failing input. The root of \<open>exDoc\<close> holds a text with one node; the
  updater styles that node through the clone and then raises. \<^verbatim>\<open>update\<close> re-raises and
  discards the clone, but the attributes of the node of the authoritative root have
  changed: \<^verbatim>\<open>deepcopy\<close> gave the node of the clone the same value object, and
  \<^verbatim>\<open>setStyle\<close> changed its attributes in place.
\<close>

theorem update_failure_leaks_style:
  "fst (update exEnv styleThenThrow None exDoc) = Inl (Thrown ''boom'') \<and>
   clone (snd (update exEnv styleThenThrow None exDoc)) = None \<and>
   rootTextAttributes exTextTicket exDoc = [[], []] \<and>
   rootTextAttributes exTextTicket (snd (update exEnv styleThenThrow None exDoc)) =
     [[], [(''bold'', ''true'')]]"
proof (intro conjI)
  show "fst (update exEnv styleThenThrow None exDoc) = Inl (Thrown ''boom'')"
    by code_simp
  show "clone (snd (update exEnv styleThenThrow None exDoc)) = None"
    by code_simp
  show "rootTextAttributes exTextTicket exDoc = [[], []]"
    by code_simp
  show "rootTextAttributes exTextTicket (snd (update exEnv styleThenThrow None exDoc)) =
     [[], [(''bold'', ''true'')]]"
    by code_simp
qed

text \<open>
  Claim C6 as stated fails: the limit of \<open>exDoc\<close> set to 10 is positive and below the
  size 50 of the clone, yet an update that changes the presence only succeeds.
\<close>

theorem update_size_limit_counterexample:
  "0 < maxSizeLimit (exDoc\<lparr>maxSizeLimit := 10\<rparr>) \<and>
   map_option (totalDocSize \<circ> docSize \<circ> fst)
     (clone (snd (update exEnv presenceOnly None (exDoc\<lparr>maxSizeLimit := 10\<rparr>)))) = Some 50 \<and>
   fst (update exEnv presenceOnly None (exDoc\<lparr>maxSizeLimit := 10\<rparr>)) = Inr ()"
proof (intro conjI)
  show "0 < maxSizeLimit (exDoc\<lparr>maxSizeLimit := 10\<rparr>)"
    by simp
  show "map_option (totalDocSize \<circ> docSize \<circ> fst)
     (clone (snd (update exEnv presenceOnly None (exDoc\<lparr>maxSizeLimit := 10\<rparr>)))) = Some 50"
    by code_simp
  show "fst (update exEnv presenceOnly None (exDoc\<lparr>maxSizeLimit := 10\<rparr>)) = Inr ()"
    by code_simp
qed

text \<open>
  Claim C6, amended. When the document is not removed, the updater returns normally and
  has pushed an operation, the schema validation (if there are rules) passes,
  \<open>maxSizeLimit\<close> is positive and the total size of the root of the clone exceeds it,
  \<^verbatim>\<open>update\<close> discards the clone and fails with \<open>SizeExceedsLimit\<close>.
\<close>

theorem update_size_limit:
  assumes "status d \<noteq> Removed"
    and "updaterCall updater message d = (Inr u, ctx', p', h')"
    and "operations ctx' \<noteq> []"
    and "schemaRules d = [] \<or> validateYorkieRuleset env (ctx_root ctx') h' (schemaRules d)"
    and "0 < maxSizeLimit d"
    and "maxSizeLimit d < totalDocSize (docSize (ctx_root ctx'))"
  shows "fst (update env updater message d) = Inl (YorkieError ErrDocumentSizeExceedsLimit) \<and>
         clone (snd (update env updater message d)) = None"
proof -
  obtain cr cp where c: "clone (ensureClone d) = Some (cr, cp)"
    by (cases "clone d") (auto simp: ensureClone_def)
  have f: "schemaRules (ensureClone d) = schemaRules d" "maxSizeLimit (ensureClone d) = maxSizeLimit d"
    by (simp_all add: ensureClone_def split: option.splits)
  show ?thesis
    using assms c f
    by (auto simp: update_def updaterCall_def Let_def isPresenceOnlyChange_def)
qed

theorem update_size_limit_witness:
  "status (exDoc\<lparr>maxSizeLimit := 10\<rparr>) \<noteq> Removed \<and>
   fst (updaterCall styleUpdater None (exDoc\<lparr>maxSizeLimit := 10\<rparr>)) = Inr () \<and>
   0 < maxSizeLimit (exDoc\<lparr>maxSizeLimit := 10\<rparr>) \<and>
   fst (update exEnv styleUpdater None (exDoc\<lparr>maxSizeLimit := 10\<rparr>)) =
     Inl (YorkieError ErrDocumentSizeExceedsLimit) \<and>
   clone (snd (update exEnv styleUpdater None (exDoc\<lparr>maxSizeLimit := 10\<rparr>))) = None"
proof -
  let ?d = "exDoc\<lparr>maxSizeLimit := 10\<rparr>"
  let ?out = "updaterCall styleUpdater None ?d"
  have 1: "status ?d \<noteq> Removed"
    by (simp add: exDoc_def)
  have r: "fst ?out = Inr ()"
    by code_simp
  have 2: "?out = (Inr (), fst (snd ?out), fst (snd (snd ?out)), snd (snd (snd ?out)))"
    using r by (simp add: prod_eq_iff)
  have 3: "operations (fst (snd ?out)) \<noteq> []"
    by code_simp
  have 4: "schemaRules ?d = [] \<or>
           validateYorkieRuleset exEnv (ctx_root (fst (snd ?out))) (snd (snd (snd ?out))) (schemaRules ?d)"
    by (simp add: exDoc_def)
  have 5: "0 < maxSizeLimit ?d"
    by simp
  have 6: "maxSizeLimit ?d < totalDocSize (docSize (ctx_root (fst (snd ?out))))"
    by code_simp
  show ?thesis
    using update_size_limit [OF 1 2 3 4 5 6] 1 r 5 by simp
qed

section \<open>Properties of the style operation\<close>

text \<open>
  Claim C8. \<^verbatim>\<open>StyleOperation.execute\<close> raises \<open>InvalidArgument\<close>, leaving the root as it
  is, when the element map of the root has no element under \<open>parentCreatedAt\<close> or has an
  element that is not a text; when it has a text, the lookup raises nothing: the operation
  raises exactly when \<^verbatim>\<open>setStyle\<close> on that text raises, and with the same error.
\<close>

theorem StyleOperation_execute_lookup:
  "(findByCreatedAt (parentCreatedAt op) r = None \<longrightarrow>
      StyleOperation_execute sz cp op vv r h = (Inl (YorkieError ErrInvalidArgument), r, h)) \<and>
   (\<forall>k. findByCreatedAt (parentCreatedAt op) r = Some (OtherElement k) \<longrightarrow>
      StyleOperation_execute sz cp op vv r h = (Inl (YorkieError ErrInvalidArgument), r, h)) \<and>
   (\<forall>t. findByCreatedAt (parentCreatedAt op) r = Some (TextElement t) \<longrightarrow>
      (\<forall>e. fst (StyleOperation_execute sz cp op vv r h) = Inl e \<longleftrightarrow>
           fst (setStyle sz (fromPos op, toPos op)
                  (case op_attributes op of Some as \<Rightarrow> as | None \<Rightarrow> [])
                  (executedAt op) vv t h) = Inl e))"
  by (auto simp: StyleOperation_execute_def Let_def split: option.splits prod.splits sum.splits)

theorem StyleOperation_execute_lookup_witness:
  "findByCreatedAt (parentCreatedAt exStyleOp) exRoot = Some (TextElement exText) \<and>
   fst (StyleOperation_execute exSizes exPath exStyleOp None exRoot [[]]) \<noteq>
     Inl (YorkieError ErrInvalidArgument) \<and>
   findByCreatedAt (parentCreatedAt (exStyleOp\<lparr>parentCreatedAt := exNodeTicket\<rparr>)) exRoot = None \<and>
   StyleOperation_execute exSizes exPath (exStyleOp\<lparr>parentCreatedAt := exNodeTicket\<rparr>) None exRoot [[]] =
     (Inl (YorkieError ErrInvalidArgument), exRoot, [[]]) \<and>
   findByCreatedAt (parentCreatedAt exStyleOp)
     (exRoot\<lparr>elementMap := [exTextTicket \<mapsto> OtherElement ObjectKind]\<rparr>) =
     Some (OtherElement ObjectKind) \<and>
   fst (StyleOperation_execute exSizes exPath exStyleOp None
     (exRoot\<lparr>elementMap := [exTextTicket \<mapsto> OtherElement ObjectKind]\<rparr>) [[]]) =
     Inl (YorkieError ErrInvalidArgument)"
proof -
  have a: "findByCreatedAt (parentCreatedAt exStyleOp) exRoot = Some (TextElement exText)"
    by (simp add: findByCreatedAt_def exStyleOp_def exRoot_def)
  have b: "fst (setStyle exSizes (fromPos exStyleOp, toPos exStyleOp)
                  (case op_attributes exStyleOp of Some as \<Rightarrow> as | None \<Rightarrow> [])
                  (executedAt exStyleOp) None exText [[]]) \<noteq> Inl (YorkieError ErrInvalidArgument)"
    by code_simp
  have c: "findByCreatedAt (parentCreatedAt (exStyleOp\<lparr>parentCreatedAt := exNodeTicket\<rparr>)) exRoot = None"
    by (simp add: findByCreatedAt_def exRoot_def exTextTicket_def exNodeTicket_def)
  have d: "findByCreatedAt (parentCreatedAt exStyleOp)
     (exRoot\<lparr>elementMap := [exTextTicket \<mapsto> OtherElement ObjectKind]\<rparr>) =
     Some (OtherElement ObjectKind)"
    by (simp add: findByCreatedAt_def exStyleOp_def)
  show ?thesis
    using StyleOperation_execute_lookup [of exStyleOp exRoot exSizes exPath None "[[]]"]
      StyleOperation_execute_lookup [of "exStyleOp\<lparr>parentCreatedAt := exNodeTicket\<rparr>" exRoot
        exSizes exPath None "[[]]"]
      StyleOperation_execute_lookup [of exStyleOp
        "exRoot\<lparr>elementMap := [exTextTicket \<mapsto> OtherElement ObjectKind]\<rparr>" exSizes exPath None "[[]]"]
      a b c d
    by simp
qed

end
